theory Spec2Isabelle
  imports Main "HOL-Library.AList" "HOL-Library.Char_ord" "HOL-Library.List_Lexorder"
    "HOL-Library.Multiset"
begin

section \<open>Data model\<close>

text \<open>
  The graph data of \<^verbatim>\<open>src/graph/Graph.tsx\<close> (\<^verbatim>\<open>GraphProps.data\<close>): a node is
  \<^verbatim>\<open>{ id: string; label: string; x?: number; y?: number }\<close> and a link is
  \<^verbatim>\<open>{ source: string; target: string }\<close>. The field \<^verbatim>\<open>id\<close> is called
  \<open>node_id\<close> here, since \<open>id\<close> is the identity function of HOL. The type parameter
  \<open>'n\<close> stands for the number type of the optional coordinates; a coordinate that the
  object does not have is \<open>None\<close>.
\<close>

record 'n MyGraphNodeType =
  node_id :: string
  label :: string
  x :: "'n option"
  y :: "'n option"

record MyGraphLinkType =
  source :: string
  target :: string

text \<open>
  A JavaScript \<^verbatim>\<open>Set<string>\<close> iterates in insertion order and ignores the insertion
  of an element it already has: it is a list without repetitions, \<^verbatim>\<open>add\<close> appends a
  new element at the end, \<^verbatim>\<open>has\<close> is membership and \<^verbatim>\<open>size\<close> is the length.
  \<^verbatim>\<open>Array.from\<close> of a set is the list of its elements in that order.
\<close>

type_synonym 'a js_set = "'a list"

definition set_add :: "'a \<Rightarrow> 'a js_set \<Rightarrow> 'a js_set" where
  "set_add v s = (if v \<in> set s then s else s @ [v])"

definition array_from :: "'a js_set \<Rightarrow> 'a list" where
  "array_from s = s"

text \<open>
  The only exception that the functions below can raise: calling what is not a
  function, or iterating what is not iterable.
\<close>

datatype error = TypeError

subsection \<open>Objects used as dictionaries\<close>

text \<open>
  The source keeps its dictionaries in plain objects created by \<^verbatim>\<open>{}\<close>. Such an
  object has its own properties, here an association list in creation order, and
  inherits the properties of \<^verbatim>\<open>Object.prototype\<close>, whose names are listed in
  \<open>object_prototype\<close>. The values found there are functions, and for \<^verbatim>\<open>__proto__\<close>
  the prototype object itself: all of them truthy, none of them a set, an array or an
  iterable.
\<close>

definition object_prototype :: "string list" where
  "object_prototype =
     [''constructor'', ''__defineGetter__'', ''__defineSetter__'', ''hasOwnProperty'',
      ''__lookupGetter__'', ''__lookupSetter__'', ''isPrototypeOf'',
      ''propertyIsEnumerable'', ''toString'', ''valueOf'', ''__proto__'',
      ''toLocaleString'']"

text \<open>
  What \<^verbatim>\<open>obj[k]\<close> finds: an own property, an inherited one, or nothing
  (\<^verbatim>\<open>undefined\<close>).
\<close>

datatype 'v property = Own 'v | Inherited | Absent

definition js_get :: "(string \<times> 'v) list \<Rightarrow> string \<Rightarrow> 'v property" where
  "js_get obj k =
     (case map_of obj k of
        Some v \<Rightarrow> Own v
      | None \<Rightarrow> if k \<in> set object_prototype then Inherited else Absent)"

text \<open>
  \<^verbatim>\<open>EdgeMap = { [key: string]: Array<string> }\<close>: the association list of the own
  properties of the object. \<^verbatim>\<open>Object.keys(edgeMap)\<close> is \<open>map fst edgeMap\<close>, and for
  one of these keys \<^verbatim>\<open>edgeMap[k]\<close> is the own value \<open>map_of edgeMap k\<close>. An assignment
  to a new key appends an entry, an update of an existing key keeps its place.
  (\<^verbatim>\<open>Object.keys\<close> lists the keys that look like array indices first; no function
  below depends on the order of the keys.)
\<close>

type_synonym EdgeMap = "(string \<times> string list) list"

section \<open>convertToEdgeMap\<close>

text \<open>
  \<^verbatim>\<open>if (!edgeMap[k]) { edgeMap[k] = new Set<string>(); }\<close>: an own set and an
  inherited value are both truthy, and then nothing is created.
\<close>

definition ensure_key :: "string \<Rightarrow> EdgeMap \<Rightarrow> EdgeMap" where
  "ensure_key k edgeMap =
     (case js_get edgeMap k of
        Absent \<Rightarrow> edgeMap @ [(k, [])]
      | Own s \<Rightarrow> edgeMap
      | Inherited \<Rightarrow> edgeMap)"

text \<open>
  The guarded creation followed by \<^verbatim>\<open>edgeMap[k].add(v)\<close>. On an inherited value
  \<^verbatim>\<open>.add\<close> is \<^verbatim>\<open>undefined\<close>, and the call throws.
\<close>

definition add_neighbor :: "string \<Rightarrow> string \<Rightarrow> EdgeMap \<Rightarrow> error + EdgeMap" where
  "add_neighbor k v edgeMap =
     (let edgeMap' = ensure_key k edgeMap in
      case js_get edgeMap' k of
        Own s \<Rightarrow> Inr (AList.map_entry k (set_add v) edgeMap')
      | Inherited \<Rightarrow> Inl TypeError
      | Absent \<Rightarrow> Inl TypeError)"

fun convert_links :: "bool \<Rightarrow> MyGraphLinkType list \<Rightarrow> EdgeMap \<Rightarrow> error + EdgeMap" where
  "convert_links directed [] edgeMap = Inr edgeMap"
| "convert_links directed (link # links) edgeMap =
     (let src = source link; trg = target link in
      if directed then
        (case add_neighbor src trg edgeMap of
           Inl e \<Rightarrow> Inl e
         | Inr edgeMap1 \<Rightarrow> convert_links directed links edgeMap1)
      else
        (case add_neighbor src trg edgeMap of
           Inl e \<Rightarrow> Inl e
         | Inr edgeMap1 \<Rightarrow>
             (case add_neighbor trg src edgeMap1 of
                Inl e \<Rightarrow> Inl e
              | Inr edgeMap2 \<Rightarrow> convert_links directed links edgeMap2)))"

definition convertToEdgeMap :: "MyGraphLinkType list \<Rightarrow> bool \<Rightarrow> error + EdgeMap" where
  "convertToEdgeMap links directed =
     (case convert_links directed links [] of
        Inl e \<Rightarrow> Inl e
      | Inr edgeMap \<Rightarrow>
          Inr (if \<not> directed then map (\<lambda>(src, s). (src, array_from s)) edgeMap
               else edgeMap))"

section \<open>deriveStartNode\<close>

text \<open>\<^verbatim>\<open>arr[0]\<close>: the first element, \<^verbatim>\<open>undefined\<close> (\<open>None\<close>) on an empty array.\<close>

definition index0 :: "'a list \<Rightarrow> 'a option" where
  "index0 arr = (case arr of [] \<Rightarrow> None | v # _ \<Rightarrow> Some v)"

text \<open>
  The loop over \<^verbatim>\<open>Object.keys(edgeMap)\<close>; the state is the pair
  \<open>(nodesWithIn, nodesWithOut)\<close>. \<open>src\<close> is an own key, so that \<^verbatim>\<open>edgeMap[src]\<close> is
  its own value.
\<close>

definition degree_step ::
  "EdgeMap \<Rightarrow> string js_set \<Rightarrow> string \<Rightarrow> string js_set \<times> string js_set
     \<Rightarrow> string js_set \<times> string js_set" where
  "degree_step edgeMap currentNodes src st =
     (case st of (nodesWithIn, nodesWithOut) \<Rightarrow>
        if src \<in> set currentNodes then
          (case map_of edgeMap src of
             None \<Rightarrow> (nodesWithIn, set_add src nodesWithOut)
           | Some children \<Rightarrow> (fold set_add children nodesWithIn, set_add src nodesWithOut))
        else (nodesWithIn, nodesWithOut))"

definition candidate_step ::
  "string js_set \<Rightarrow> string js_set \<Rightarrow> 'n MyGraphNodeType \<Rightarrow> string js_set \<Rightarrow> string js_set" where
  "candidate_step nodesWithIn nodesWithOut node candidates =
     (if node_id node \<notin> set nodesWithIn \<and> node_id node \<in> set nodesWithOut
      then set_add (node_id node) candidates else candidates)"

text \<open>
  \<^verbatim>\<open>arr.sort()\<close> without a comparator orders strings by their code units, the
  lexicographic order of \<open>string\<close>. The result is \<open>None\<close> where the source returns
  \<^verbatim>\<open>undefined\<close>.
\<close>

definition deriveStartNode :: "'n MyGraphNodeType list \<Rightarrow> EdgeMap \<Rightarrow> string option" where
  "deriveStartNode nodes edgeMap =
     (let currentNodes = fold (\<lambda>node. set_add (node_id node)) nodes [];
          currentNodeList = map node_id nodes;
          (nodesWithIn, nodesWithOut) =
             fold (degree_step edgeMap currentNodes) (map fst edgeMap) ([], []);
          candidates = fold (candidate_step nodesWithIn nodesWithOut) nodes []
      in if length candidates > 0 then index0 (sort (array_from candidates))
         else if length nodesWithOut = 0 then index0 (sort currentNodeList)
         else index0 (sort (array_from nodesWithOut)))"

section \<open>removeRepeatedEdges\<close>

definition key :: "MyGraphLinkType \<Rightarrow> string" where
  "key link = source link @ ''-linkTo-'' @ target link"

definition backKey :: "MyGraphLinkType \<Rightarrow> string" where
  "backKey link = target link @ ''-linkTo-'' @ source link"

text \<open>The loop over the links; the state is the pair \<open>(seen, rtn)\<close>.\<close>

fun remove_loop ::
  "MyGraphLinkType list \<Rightarrow> string js_set \<times> MyGraphLinkType list
     \<Rightarrow> string js_set \<times> MyGraphLinkType list" where
  "remove_loop [] st = st"
| "remove_loop (link # links) (seen, rtn) =
     (if backKey link \<in> set seen then remove_loop links (seen, rtn)
      else remove_loop links (set_add (key link) seen, rtn @ [link]))"

definition removeRepeatedEdges :: "MyGraphLinkType list \<Rightarrow> MyGraphLinkType list" where
  "removeRepeatedEdges links = snd (remove_loop links ([], []))"

section \<open>getDisconnectedComponents\<close>

text \<open>
  The recursive \<^verbatim>\<open>dfs\<close>; the \<^verbatim>\<open>for (let child of children)\<close> loop is
  \<open>dfs_children\<close>. Both sets are mutated in place by the source, so the state
  \<open>(seen, collected)\<close> is passed in and returned. \<^verbatim>\<open>if (!children) return;\<close> fires
  only on \<^verbatim>\<open>undefined\<close>: an array, even an empty one, is truthy, and so is an
  inherited value, on which the \<^verbatim>\<open>for ... of\<close> throws.
\<close>

function (domintros)
  dfs :: "string \<Rightarrow> EdgeMap \<Rightarrow> string js_set \<times> string js_set
            \<Rightarrow> error + string js_set \<times> string js_set"
  and dfs_children :: "string list \<Rightarrow> EdgeMap \<Rightarrow> string js_set \<times> string js_set
            \<Rightarrow> error + string js_set \<times> string js_set"
where
  "dfs nodeId edgeMap (seen, collected) =
     (if nodeId \<in> set seen then Inr (seen, collected)
      else (case js_get edgeMap nodeId of
              Absent \<Rightarrow> Inr (set_add nodeId seen, set_add nodeId collected)
            | Inherited \<Rightarrow> Inl TypeError
            | Own children \<Rightarrow>
                dfs_children children edgeMap (set_add nodeId seen, set_add nodeId collected)))"
| "dfs_children [] edgeMap st = Inr st"
| "dfs_children (child # children) edgeMap st =
     (case dfs child edgeMap st of
        Inl e \<Rightarrow> Inl e
      | Inr st' \<Rightarrow> dfs_children children edgeMap st')"
  by pat_completeness auto

text \<open>
  What a lookup in \<^verbatim>\<open>idToNodes\<close> can give: a node object, \<^verbatim>\<open>undefined\<close>, a
  string or a number (a field of a node), or the value that \<^verbatim>\<open>Object.prototype\<close>
  holds under the given name.
\<close>

datatype 'n js_value =
  Node "'n MyGraphNodeType" | Undefined | Str string | Num 'n | Builtin string

text \<open>
  The object \<^verbatim>\<open>idToNodes\<close>: its own properties, and the node that has become its
  prototype, if any. \<^verbatim>\<open>idToNodes[node.id] = node\<close> creates or replaces an own
  property, a later node replacing an earlier one with the same id; but for the id
  \<^verbatim>\<open>__proto__\<close> the assignment runs the setter inherited from
  \<^verbatim>\<open>Object.prototype\<close>, which makes the node the prototype of \<^verbatim>\<open>idToNodes\<close> and
  creates no property.
\<close>

type_synonym 'n node_table =
  "(string \<Rightarrow> 'n MyGraphNodeType option) \<times> 'n MyGraphNodeType option"

definition idToNodes_set :: "'n MyGraphNodeType \<Rightarrow> 'n node_table \<Rightarrow> 'n node_table" where
  "idToNodes_set node table =
     (case table of (own, proto) \<Rightarrow>
        if node_id node = ''__proto__'' then (own, Some node)
        else (own(node_id node \<mapsto> node), proto))"

definition idToNodes :: "'n MyGraphNodeType list \<Rightarrow> 'n node_table" where
  "idToNodes nodes = fold idToNodes_set nodes (Map.empty, None)"

text \<open>
  \<^verbatim>\<open>idToNodes[c]\<close>: the own property; failing that, a field of the node that is the
  prototype (\<^verbatim>\<open>id\<close>, \<^verbatim>\<open>label\<close>, and \<^verbatim>\<open>x\<close>, \<^verbatim>\<open>y\<close> when it has them); failing
  that, what \<^verbatim>\<open>Object.prototype\<close> holds, where the getter of \<^verbatim>\<open>__proto__\<close> returns
  the prototype of \<^verbatim>\<open>idToNodes\<close>.
\<close>

definition inherited_value :: "'n MyGraphNodeType option \<Rightarrow> string \<Rightarrow> 'n js_value" where
  "inherited_value proto c =
     (if c = ''__proto__'' then (case proto of Some p \<Rightarrow> Node p | None \<Rightarrow> Builtin c)
      else if c \<in> set object_prototype then Builtin c
      else Undefined)"

definition node_field :: "'n MyGraphNodeType \<Rightarrow> string \<Rightarrow> 'n js_value option" where
  "node_field p c =
     (if c = ''id'' then Some (Str (node_id p))
      else if c = ''label'' then Some (Str (label p))
      else if c = ''x'' then map_option Num (x p)
      else if c = ''y'' then map_option Num (y p)
      else None)"

definition idToNodes_get :: "'n node_table \<Rightarrow> string \<Rightarrow> 'n js_value" where
  "idToNodes_get table c =
     (case table of (own, proto) \<Rightarrow>
        (case own c of
           Some node \<Rightarrow> Node node
         | None \<Rightarrow>
             (case proto of
                None \<Rightarrow> inherited_value None c
              | Some p \<Rightarrow>
                  (case node_field p c of
                     Some v \<Rightarrow> v
                   | None \<Rightarrow> inherited_value proto c))))"

definition connectedNodeIds :: "MyGraphLinkType list \<Rightarrow> string js_set" where
  "connectedNodeIds links =
     fold (\<lambda>link s. set_add (target link) (set_add (source link) s)) links []"

text \<open>
  \<^verbatim>\<open>startNode && collected.has(startNode)\<close>: \<^verbatim>\<open>undefined\<close> (\<open>None\<close>) and the empty
  string are falsy.
\<close>

definition start_in :: "string option \<Rightarrow> string js_set \<Rightarrow> bool" where
  "start_in startNode collected =
     (case startNode of None \<Rightarrow> False | Some s \<Rightarrow> s \<noteq> [] \<and> s \<in> set collected)"

text \<open>
  The loop over \<^verbatim>\<open>Array.from(connectedNodeIds)\<close>; the state is \<open>(seen, rtn)\<close> and
  \<open>nodeMap\<close> is the lookup in the finished \<^verbatim>\<open>idToNodes\<close> object.
  \<^verbatim>\<open>toAdd.push(idToNodes[c])\<close> pushes whatever the lookup gives. \<^verbatim>\<open>rtn.unshift\<close>
  puts the component first, \<^verbatim>\<open>rtn.push\<close> last.
\<close>

fun components_loop ::
  "(string \<Rightarrow> 'v) \<Rightarrow> EdgeMap \<Rightarrow> string option \<Rightarrow> string list
     \<Rightarrow> string js_set \<times> 'v list list \<Rightarrow> error + string js_set \<times> 'v list list" where
  "components_loop nodeMap edgeMap startNode [] st = Inr st"
| "components_loop nodeMap edgeMap startNode (nodeId # ids) (seen, rtn) =
     (if nodeId \<notin> set seen then
        (case dfs nodeId edgeMap (seen, []) of
           Inl e \<Rightarrow> Inl e
         | Inr (seen', collected) \<Rightarrow>
             let toAdd = map nodeMap (array_from collected) in
             if start_in startNode collected
             then components_loop nodeMap edgeMap startNode ids (seen', toAdd # rtn)
             else components_loop nodeMap edgeMap startNode ids (seen', rtn @ [toAdd]))
      else components_loop nodeMap edgeMap startNode ids (seen, rtn))"

text \<open>
  The function: \<^verbatim>\<open>idToNodes\<close> and \<^verbatim>\<open>connectedNodeIds\<close> are filled first, then the
  edge map is built, which may throw, then the loop runs.
\<close>

definition getDisconnectedComponents ::
  "'n MyGraphNodeType list \<Rightarrow> MyGraphLinkType list \<Rightarrow> string option
     \<Rightarrow> error + 'n js_value list list" where
  "getDisconnectedComponents nodes links startNode =
     (let table = idToNodes nodes;
          ids = connectedNodeIds links
      in case convertToEdgeMap links False of
           Inl e \<Rightarrow> Inl e
         | Inr edgeMap \<Rightarrow>
             (case components_loop (idToNodes_get table) edgeMap startNode (array_from ids)
                     ([], []) of
                Inl e \<Rightarrow> Inl e
              | Inr (seen, rtn) \<Rightarrow> Inr rtn))"

section \<open>Notions used to state the properties\<close>

text \<open>The neighbour list of \<open>a\<close> in \<open>edgeMap\<close> contains \<open>b\<close>.\<close>

definition neighbor :: "EdgeMap \<Rightarrow> string \<Rightarrow> string \<Rightarrow> bool" where
  "neighbor edgeMap a b = (case map_of edgeMap a of None \<Rightarrow> False | Some ns \<Rightarrow> b \<in> set ns)"

text \<open>Every key of the edge map has at least one neighbour.\<close>

definition no_empty_entry :: "EdgeMap \<Rightarrow> bool" where
  "no_empty_entry edgeMap = list_all (\<lambda>(k, ns). ns \<noteq> []) edgeMap"

text \<open>The ids that become keys of the edge map: the sources of the links, and their
  targets too when the graph is undirected.\<close>

definition key_ids :: "MyGraphLinkType list \<Rightarrow> bool \<Rightarrow> string set" where
  "key_ids links directed =
     source ` set links \<union> (if directed then {} else target ` set links)"

text \<open>
  The sets of section 4.2 of the specification, in its words: \<open>withOutdegree\<close> are the
  node ids that are keys of the adjacency map with at least one neighbour,
  \<open>withIndegree\<close> the ids that are a neighbour of some key in \<open>withOutdegree\<close>, and
  the candidates the node ids in the first set and not in the second.
\<close>

definition spec_withOutdegree :: "'n MyGraphNodeType list \<Rightarrow> EdgeMap \<Rightarrow> string set" where
  "spec_withOutdegree nodes edgeMap =
     {k \<in> node_id ` set nodes. \<exists>ns. map_of edgeMap k = Some ns \<and> ns \<noteq> []}"

definition spec_withIndegree :: "'n MyGraphNodeType list \<Rightarrow> EdgeMap \<Rightarrow> string set" where
  "spec_withIndegree nodes edgeMap = {t. \<exists>k \<in> spec_withOutdegree nodes edgeMap. neighbor edgeMap k t}"

definition spec_candidates :: "'n MyGraphNodeType list \<Rightarrow> EdgeMap \<Rightarrow> string set" where
  "spec_candidates nodes edgeMap =
     {k \<in> node_id ` set nodes. k \<in> spec_withOutdegree nodes edgeMap \<and> k \<notin> spec_withIndegree nodes edgeMap}"

text \<open>The node ids that are keys of the edge map: what the source collects in
  \<^verbatim>\<open>nodesWithOut\<close>.\<close>

definition out_keys :: "'n MyGraphNodeType list \<Rightarrow> EdgeMap \<Rightarrow> string set" where
  "out_keys nodes edgeMap = node_id ` set nodes \<inter> fst ` set edgeMap"

text \<open>\<open>e1\<close> is the mirror of \<open>e2\<close>: the same two endpoints in the other direction.\<close>

definition mirror :: "MyGraphLinkType \<Rightarrow> MyGraphLinkType \<Rightarrow> bool" where
  "mirror e1 e2 = (source e1 = target e2 \<and> target e1 = source e2)"

text \<open>
  The key strings of a list of links are unambiguous when a back key equals a forward
  key only for a mirrored pair of links. (The concatenation with \<^verbatim>\<open>-linkTo-\<close> is not
  injective on ids that contain that text themselves.)
\<close>

definition unambiguous :: "MyGraphLinkType list \<Rightarrow> bool" where
  "unambiguous links =
     list_all (\<lambda>e1. list_all (\<lambda>e2. backKey e1 = key e2 \<longrightarrow> mirror e1 e2) links) links"

text \<open>No id of the links contains the character \<^verbatim>\<open>-\<close>.\<close>

definition dash_free :: "MyGraphLinkType list \<Rightarrow> bool" where
  "dash_free links =
     list_all (\<lambda>e. CHR ''-'' \<notin> set (source e) \<and> CHR ''-'' \<notin> set (target e)) links"

text \<open>The number of keys of the edge map that the traversal has not seen yet.\<close>

definition unseen :: "EdgeMap \<Rightarrow> string js_set \<Rightarrow> nat" where
  "unseen edgeMap seen = card (fst ` set edgeMap - set seen)"

text \<open>
  The id sets that the traversals of \<open>getDisconnectedComponents\<close> collect, in the order
  of their discovery: its loop run without a start node and with the ids themselves
  as entries. It is empty where the source throws.
\<close>

definition discovered :: "MyGraphLinkType list \<Rightarrow> string js_set list" where
  "discovered links =
     (case convertToEdgeMap links False of
        Inl e \<Rightarrow> []
      | Inr edgeMap \<Rightarrow>
          (case components_loop (\<lambda>c. c) edgeMap None (connectedNodeIds links) ([], []) of
             Inl e \<Rightarrow> []
           | Inr (seen, rtn) \<Rightarrow> rtn))"

text \<open>The edges of an edge map, as a relation on ids.\<close>

definition edge_rel :: "EdgeMap \<Rightarrow> (string \<times> string) set" where
  "edge_rel edgeMap = {(a, b). neighbor edgeMap a b}"

text \<open>A set of ids that contains every neighbour of its members.\<close>

definition closed_under :: "EdgeMap \<Rightarrow> string set \<Rightarrow> bool" where
  "closed_under edgeMap S = (\<forall>v \<in> S. \<forall>w. neighbor edgeMap v w \<longrightarrow> w \<in> S)"

text \<open>Two ids are adjacent when a link joins them, in either direction.\<close>

definition undirected_rel :: "MyGraphLinkType list \<Rightarrow> (string \<times> string) set" where
  "undirected_rel links =
     {(a, b). \<exists>l \<in> set links. (source l = a \<and> target l = b) \<or> (source l = b \<and> target l = a)}"

section \<open>Termination of the traversal\<close>

lemma dfs_seen_mono_dom:
  "dfs_dfs_children_dom (Inl (nodeId, edgeMap, st)) \<Longrightarrow> dfs nodeId edgeMap st = Inr st'
     \<Longrightarrow> set (fst st) \<subseteq> set (fst st')"
  "dfs_dfs_children_dom (Inr (children, edgeMap, st)) \<Longrightarrow>
     dfs_children children edgeMap st = Inr st' \<Longrightarrow> set (fst st) \<subseteq> set (fst st')"
proof (induction nodeId edgeMap st and children edgeMap st arbitrary: st' and st'
    rule: dfs_dfs_children.pinduct)
  case (1 nodeId edgeMap seen collected)
  then show ?case
    by (auto simp: dfs.psimps set_add_def split: if_splits property.splits)
next
  case (2 edgeMap st)
  then show ?case by (simp add: dfs_children.psimps)
next
  case (3 child children edgeMap st)
  from "3.prems" "3.hyps" obtain st1 where
    st1: "dfs child edgeMap st = Inr st1" "dfs_children children edgeMap st1 = Inr st'"
    by (auto simp: dfs_children.psimps split: sum.splits)
  have "set (fst st) \<subseteq> set (fst st1)" using st1(1) by (rule "3.IH"(1))
  moreover have "set (fst st1) \<subseteq> set (fst st')" using st1 by (rule "3.IH"(2))
  ultimately show ?case by blast
qed

lemma unseen_mono: "set s \<subseteq> set s' \<Longrightarrow> unseen em s' \<le> unseen em s"
  unfolding unseen_def by (intro card_mono) auto

lemma js_get_Own: "js_get obj k = Own v \<longleftrightarrow> map_of obj k = Some v"
  by (auto simp: js_get_def split: option.splits)

lemma unseen_less:
  assumes "js_get em n = Own ch" "n \<notin> set seen"
  shows "unseen em (set_add n seen) < unseen em seen"
proof -
  have "map_of em n = Some ch" using assms(1) by (simp add: js_get_Own)
  then have "n \<in> fst ` set em" by (metis map_of_SomeD fst_conv image_eqI)
  then have "fst ` set em - set (set_add n seen) \<subset> fst ` set em - set seen"
    using assms(2) by (auto simp: set_add_def)
  then show ?thesis unfolding unseen_def by (intro psubset_card_mono) auto
qed

termination dfs
proof (relation "inv_image (less_than <*lex*> less_than)
    (\<lambda>a. case a of Inl (n, em, st) \<Rightarrow> (unseen em (fst st), 0)
                  | Inr (ch, em, st) \<Rightarrow> (unseen em (fst st), Suc (length ch)))", goal_cases)
  case 1
  show ?case by (intro wf_inv_image wf_lex_prod wf_less_than)
next
  case (2 nodeId edgeMap seen collected children)
  then show ?case by (simp add: unseen_less)
next
  case (3 child children edgeMap st)
  show ?case by simp
next
  case (4 child children edgeMap st st')
  then show ?case
    using unseen_mono [OF dfs_seen_mono_dom(1) [of child edgeMap st st']]
    by (auto simp: le_less)
qed

lemma dfs_total:
  "dfs_dfs_children_dom (Inl (nodeId, edgeMap, st))"
  "dfs_dfs_children_dom (Inr (children, edgeMap, st))"
  by (induction nodeId edgeMap st and children edgeMap st rule: dfs_dfs_children.induct)
     (auto intro: dfs_dfs_children.domintros)

section \<open>Properties of convertToEdgeMap\<close>

lemma js_get_Absent:
  "js_get obj k = Absent \<longleftrightarrow> map_of obj k = None \<and> k \<notin> set object_prototype"
  by (auto simp: js_get_def split: option.splits)

lemma js_get_Inherited:
  "js_get obj k = Inherited \<longleftrightarrow> map_of obj k = None \<and> k \<in> set object_prototype"
  by (auto simp: js_get_def split: option.splits)

text \<open>\<open>add_neighbor\<close> by recursion over the entries.\<close>

lemma add_neighbor_Nil:
  "add_neighbor k v [] = (if k \<in> set object_prototype then Inl TypeError else Inr [(k, [v])])"
  by (simp add: add_neighbor_def ensure_key_def js_get_def set_add_def)

lemma add_neighbor_Cons:
  "add_neighbor k v (p # ps) =
     (if fst p = k then Inr ((k, set_add v (snd p)) # ps)
      else map_sum (\<lambda>e. e) ((#) p) (add_neighbor k v ps))"
  by (cases p)
     (auto simp: add_neighbor_def ensure_key_def js_get_def Let_def
           split: option.splits property.splits)

text \<open>It throws exactly on a name of the prototype that is not an own key.\<close>

lemma add_neighbor_throws:
  "add_neighbor k v em = Inl e \<longleftrightarrow> k \<in> set object_prototype \<and> k \<notin> fst ` set em"
proof (induction em)
  case Nil
  then show ?case by (cases e) (simp add: add_neighbor_Nil)
next
  case (Cons p ps)
  then show ?case
    by (cases "add_neighbor k v ps") (auto simp: add_neighbor_Cons)
qed

lemma map_of_add_neighbor:
  "add_neighbor k v em = Inr em' \<Longrightarrow>
     map_of em' = (map_of em)(k \<mapsto> set_add v (case map_of em k of None \<Rightarrow> [] | Some ns \<Rightarrow> ns))"
proof (induction em arbitrary: em')
  case Nil
  then show ?case by (auto simp: add_neighbor_Nil set_add_def split: if_splits)
next
  case (Cons p ps)
  show ?case
  proof (cases "fst p = k")
    case True
    then show ?thesis using Cons.prems by (cases p) (auto simp: add_neighbor_Cons)
  next
    case False
    then obtain ps' where ps': "add_neighbor k v ps = Inr ps'" "em' = p # ps'"
      using Cons.prems by (cases "add_neighbor k v ps") (auto simp: add_neighbor_Cons)
    show ?thesis
      using False Cons.IH [OF ps'(1)] ps'(2) by (cases p) (auto simp: fun_eq_iff)
  qed
qed

lemma neighbor_add_neighbor:
  "add_neighbor k v em = Inr em' \<Longrightarrow>
     neighbor em' a b \<longleftrightarrow> neighbor em a b \<or> (a = k \<and> b = v)"
  by (auto simp: neighbor_def map_of_add_neighbor set_add_def split: option.splits)

lemma keys_of_add_neighbor:
  "add_neighbor k v em = Inr em' \<Longrightarrow> fst ` set em' = insert k (fst ` set em)"
proof (induction em arbitrary: em')
  case Nil
  then show ?case by (auto simp: add_neighbor_Nil split: if_splits)
next
  case (Cons p ps)
  show ?case
  proof (cases "fst p = k")
    case True
    then have "em' = (k, set_add v (snd p)) # ps" using Cons.prems by (simp add: add_neighbor_Cons)
    then show ?thesis using True by simp
  next
    case False
    then obtain ps' where ps': "add_neighbor k v ps = Inr ps'" "em' = p # ps'"
      using Cons.prems by (cases "add_neighbor k v ps") (auto simp: add_neighbor_Cons)
    have "fst ` set ps' = insert k (fst ` set ps)" using ps'(1) by (rule Cons.IH)
    then show ?thesis unfolding ps'(2) by simp blast
  qed
qed

lemma distinct_add_neighbor:
  "add_neighbor k v em = Inr em' \<Longrightarrow> distinct (map fst em) \<Longrightarrow> distinct (map fst em')"
proof (induction em arbitrary: em')
  case Nil
  then show ?case by (auto simp: add_neighbor_Nil split: if_splits)
next
  case (Cons p ps)
  show ?case
  proof (cases "fst p = k")
    case True
    then show ?thesis using Cons.prems by (auto simp: add_neighbor_Cons)
  next
    case False
    then obtain ps' where ps': "add_neighbor k v ps = Inr ps'" "em' = p # ps'"
      using Cons.prems by (cases "add_neighbor k v ps") (auto simp: add_neighbor_Cons)
    have "fst ` set ps' = insert k (fst ` set ps)" using ps'(1) by (rule keys_of_add_neighbor)
    then show ?thesis using False Cons.IH [OF ps'(1)] Cons.prems(2) ps'(2) by auto
  qed
qed

lemma set_add_not_Nil: "set_add v s \<noteq> []"
  by (auto simp: set_add_def)

lemma no_empty_entry_Nil: "no_empty_entry []"
  by (simp add: no_empty_entry_def)

lemma no_empty_entry_add_neighbor:
  "add_neighbor k v em = Inr em' \<Longrightarrow> no_empty_entry em \<Longrightarrow> no_empty_entry em'"
proof (induction em arbitrary: em')
  case Nil
  then show ?case by (auto simp: add_neighbor_Nil no_empty_entry_def split: if_splits)
next
  case (Cons p ps)
  then show ?case
    by (cases "add_neighbor k v ps")
       (auto simp: add_neighbor_Cons no_empty_entry_def set_add_not_Nil split: if_splits)
qed

text \<open>What the loop over the links returns, and when it throws.\<close>

lemma convert_links_Inr:
  "convert_links directed links em = Inr em' \<Longrightarrow>
     (\<forall>a b. neighbor em' a b \<longleftrightarrow>
        neighbor em a b
        \<or> (\<exists>l \<in> set links. (source l = a \<and> target l = b)
                              \<or> (\<not> directed \<and> source l = b \<and> target l = a)))
     \<and> fst ` set em' = fst ` set em \<union> key_ids links directed
     \<and> (distinct (map fst em) \<longrightarrow> distinct (map fst em'))
     \<and> (no_empty_entry em \<longrightarrow> no_empty_entry em')"
proof (induction directed links em arbitrary: em' rule: convert_links.induct)
  case (1 directed edgeMap)
  then show ?case by (simp add: key_ids_def)
next
  case (2 directed link links edgeMap)
  show ?case
  proof (cases directed)
    case True
    then obtain em1 where em1: "add_neighbor (source link) (target link) edgeMap = Inr em1"
        "convert_links directed links em1 = Inr em'"
      using "2.prems" by (auto simp: Let_def split: sum.splits)
    note IH = "2.IH"(1) [OF refl refl True em1]
    note A = neighbor_add_neighbor [OF em1(1)] keys_of_add_neighbor [OF em1(1)]
      distinct_add_neighbor [OF em1(1)] no_empty_entry_add_neighbor [OF em1(1)]
    show ?thesis using IH A True by (auto simp: key_ids_def)
  next
    case False
    then obtain em1 em2 where em1: "add_neighbor (source link) (target link) edgeMap = Inr em1"
        and em2: "add_neighbor (target link) (source link) em1 = Inr em2"
        and rest: "convert_links directed links em2 = Inr em'"
      using "2.prems" by (auto simp: Let_def split: sum.splits)
    note IH = "2.IH"(2) [OF refl refl False em1 em2 rest]
    note A = neighbor_add_neighbor [OF em1] keys_of_add_neighbor [OF em1]
      distinct_add_neighbor [OF em1] no_empty_entry_add_neighbor [OF em1]
    note B = neighbor_add_neighbor [OF em2] keys_of_add_neighbor [OF em2]
      distinct_add_neighbor [OF em2] no_empty_entry_add_neighbor [OF em2]
    show ?thesis using IH A B False by (auto simp: key_ids_def)
  qed
qed

lemma convert_links_throws:
  "fst ` set em \<inter> set object_prototype = {} \<Longrightarrow>
     convert_links directed links em = Inl e \<longleftrightarrow>
       key_ids links directed \<inter> set object_prototype \<noteq> {}"
proof (induction directed links em rule: convert_links.induct)
  case (1 directed edgeMap)
  then show ?case by (simp add: key_ids_def)
next
  case (2 directed link links edgeMap)
  let ?src = "source link" and ?trg = "target link"
  have e: "e = TypeError" by (cases e) simp
  show ?case
  proof (cases "add_neighbor ?src ?trg edgeMap")
    case (Inl e1)
    then have "?src \<in> set object_prototype" by (simp add: add_neighbor_throws)
    then show ?thesis using Inl e by (cases e1) (auto simp: key_ids_def Let_def)
  next
    case (Inr em1)
    have src: "?src \<notin> set object_prototype"
      using Inr add_neighbor_throws [of ?src ?trg edgeMap TypeError] "2.prems" by auto
    have k1: "fst ` set em1 = insert ?src (fst ` set edgeMap)"
      using Inr by (rule keys_of_add_neighbor)
    then have inv1: "fst ` set em1 \<inter> set object_prototype = {}"
      using src "2.prems" by auto
    show ?thesis
    proof (cases directed)
      case True
      show ?thesis
        using "2.IH"(1) [OF refl refl True Inr inv1] Inr True src
        by (auto simp: key_ids_def)
    next
      case False
      show ?thesis
      proof (cases "add_neighbor ?trg ?src em1")
        case (Inl e2)
        then have "?trg \<in> set object_prototype" by (simp add: add_neighbor_throws)
        then show ?thesis using Inl Inr False e by (cases e2) (auto simp: key_ids_def Let_def)
      next
        case em2: (Inr em2)
        have trg: "?trg \<notin> set object_prototype"
          using em2 add_neighbor_throws [of ?trg ?src em1 TypeError] inv1 by auto
        have "fst ` set em2 = insert ?trg (fst ` set em1)"
          using em2 by (rule keys_of_add_neighbor)
        then have inv2: "fst ` set em2 \<inter> set object_prototype = {}"
          using trg inv1 by auto
        show ?thesis
          using "2.IH"(2) [OF refl refl False Inr em2 inv2] Inr em2 False src trg
          by (auto simp: key_ids_def)
      qed
    qed
  qed
qed

lemma array_from_entries: "map (\<lambda>(src, s). (src, array_from s)) em = em"
  by (induction em) (auto simp: array_from_def)

lemma convertToEdgeMap_eq: "convertToEdgeMap links directed = convert_links directed links []"
  by (simp add: convertToEdgeMap_def array_from_entries split: sum.splits)

text \<open>
  \<open>convertToEdgeMap\<close> throws exactly when an id that becomes a key is a name of
  \<^verbatim>\<open>Object.prototype\<close>.
\<close>

lemma convertToEdgeMap_throws:
  "convertToEdgeMap links directed = Inl e \<longleftrightarrow>
     key_ids links directed \<inter> set object_prototype \<noteq> {}"
  by (simp add: convertToEdgeMap_eq convert_links_throws)

lemma convertToEdgeMap_returns:
  "(\<exists>edgeMap. convertToEdgeMap links directed = Inr edgeMap) \<longleftrightarrow>
     key_ids links directed \<inter> set object_prototype = {}"
  using convertToEdgeMap_throws [of links directed TypeError]
  by (cases "convertToEdgeMap links directed") (auto, metis error.exhaust)

lemma neighbor_Nil: "\<not> neighbor [] a b"
  by (simp add: neighbor_def)

lemma neighbor_convertToEdgeMap:
  "convertToEdgeMap links directed = Inr edgeMap \<Longrightarrow>
     neighbor edgeMap a b \<longleftrightarrow>
       (\<exists>l \<in> set links. (source l = a \<and> target l = b)
                           \<or> (\<not> directed \<and> source l = b \<and> target l = a))"
  using convert_links_Inr [of directed links "[]" edgeMap]
  by (simp add: convertToEdgeMap_eq neighbor_Nil)

lemma keys_of_convertToEdgeMap:
  "convertToEdgeMap links directed = Inr edgeMap \<Longrightarrow> fst ` set edgeMap = key_ids links directed"
  using convert_links_Inr [of directed links "[]" edgeMap]
  by (simp add: convertToEdgeMap_eq)

text \<open>The shape of the map that is built: no key twice, no empty neighbour list.\<close>

lemma distinct_convertToEdgeMap:
  "convertToEdgeMap links directed = Inr edgeMap \<Longrightarrow> distinct (map fst edgeMap)"
  using convert_links_Inr [of directed links "[]" edgeMap]
  by (simp add: convertToEdgeMap_eq)

lemma no_empty_entry_convertToEdgeMap:
  "convertToEdgeMap links directed = Inr edgeMap \<Longrightarrow> no_empty_entry edgeMap"
  using convert_links_Inr [of directed links "[]" edgeMap]
  by (simp add: convertToEdgeMap_eq no_empty_entry_Nil)

lemma lookup_as_sets:
  "map_option set (map_of em k) = (if k \<in> fst ` set em then Some {b. neighbor em k b} else None)"
  by (cases "map_of em k")
     (auto simp: neighbor_def map_of_eq_None_iff dest: map_of_SomeD intro: rev_image_eqI)

text \<open>The edge maps of two lists with the same links have the same keys and the same
  neighbour sets.\<close>

lemma convertToEdgeMap_same_sets:
  assumes "set links1 = set links2"
    and "convertToEdgeMap links1 directed = Inr em1"
    and "convertToEdgeMap links2 directed = Inr em2"
  shows "map_option set (map_of em1 k) = map_option set (map_of em2 k)"
  unfolding lookup_as_sets keys_of_convertToEdgeMap [OF assms(2)]
    keys_of_convertToEdgeMap [OF assms(3)] neighbor_convertToEdgeMap [OF assms(2)]
    neighbor_convertToEdgeMap [OF assms(3)] key_ids_def assms(1) ..

text \<open>
  C5: in the edge map that \<open>convertToEdgeMap\<close> returns with \<open>directed = false\<close>, the
  neighbour list of \<open>a\<close> contains \<open>b\<close> if and only if the neighbour list of \<open>b\<close>
  contains \<open>a\<close>, for every list of links and all ids \<open>a\<close> and \<open>b\<close>.
\<close>
theorem convertToEdgeMap_undirected_symmetric:
  assumes "convertToEdgeMap links False = Inr edgeMap"
  shows "neighbor edgeMap a b \<longleftrightarrow> neighbor edgeMap b a"
  unfolding neighbor_convertToEdgeMap [OF assms] by auto

lemmas convert_eval = convertToEdgeMap_def add_neighbor_def ensure_key_def js_get_def
  object_prototype_def set_add_def array_from_def neighbor_def Let_def

theorem convertToEdgeMap_undirected_symmetric_witness:
  "convertToEdgeMap [\<lparr>source = ''A'', target = ''B''\<rparr>, \<lparr>source = ''C'', target = ''A''\<rparr>] False
     = Inr [(''A'', [''B'', ''C'']), (''B'', [''A'']), (''C'', [''A''])]
   \<and> neighbor [(''A'', [''B'', ''C'']), (''B'', [''A'']), (''C'', [''A''])] ''A'' ''C''
   \<and> neighbor [(''A'', [''B'', ''C'']), (''B'', [''A'']), (''C'', [''A''])] ''C'' ''A''"
  (is "?built \<and> ?ac \<and> ?ca")
proof -
  have b: ?built by (simp add: convert_eval)
  have ac: ?ac by (simp add: neighbor_def)
  show ?thesis
    using b ac convertToEdgeMap_undirected_symmetric [OF b, of "''A''" "''C''"] by blast
qed

section \<open>Properties of deriveStartNode\<close>

lemma set_set_add: "set (set_add v s) = insert v (set s)"
  by (auto simp: set_add_def)

lemma set_fold_set_add: "set (fold set_add xs s) = set s \<union> set xs"
  by (induction xs arbitrary: s) (auto simp: set_set_add)

lemma set_currentNodes:
  "set (fold (\<lambda>node. set_add (node_id node)) nodes s) = set s \<union> node_id ` set nodes"
  by (induction nodes arbitrary: s) (auto simp: set_set_add)

text \<open>What the loop over the keys leaves in \<open>nodesWithIn\<close> and \<open>nodesWithOut\<close>.\<close>

lemma degree_loop:
  "fold (degree_step edgeMap currentNodes) keys (nodesWithIn, nodesWithOut) = (win, wout) \<Longrightarrow>
     set wout = set nodesWithOut \<union> (set keys \<inter> set currentNodes)
     \<and> set win = set nodesWithIn
           \<union> {t. \<exists>k \<in> set keys \<inter> set currentNodes. neighbor edgeMap k t}"
proof (induction keys arbitrary: nodesWithIn nodesWithOut)
  case Nil
  then show ?case by simp
next
  case (Cons k keys)
  show ?case
  proof (cases "k \<in> set currentNodes")
    case False
    then show ?thesis using Cons.IH [of nodesWithIn nodesWithOut] Cons.prems
      by (auto simp: degree_step_def)
  next
    case True
    show ?thesis
    proof (cases "map_of edgeMap k")
      case None
      then show ?thesis
        using True Cons.IH [of nodesWithIn "set_add k nodesWithOut"] Cons.prems
        by (auto simp: degree_step_def set_set_add neighbor_def)
    next
      case (Some children)
      then show ?thesis
        using True Cons.IH [of "fold set_add children nodesWithIn" "set_add k nodesWithOut"]
          Cons.prems
        by (auto simp: degree_step_def set_set_add set_fold_set_add neighbor_def)
    qed
  qed
qed

lemma candidate_loop:
  "set (fold (candidate_step nodesWithIn nodesWithOut) nodes c) =
     set c \<union> {k \<in> node_id ` set nodes. k \<notin> set nodesWithIn \<and> k \<in> set nodesWithOut}"
  by (induction nodes arbitrary: c) (auto simp: candidate_step_def set_set_add)

lemma index0_sort:
  "index0 (sort xs) = (if xs = [] then None else Some (Min (set xs)))"
proof (cases "sort xs")
  case Nil
  then have "xs = []" by (metis set_sort set_empty)
  then show ?thesis by (simp add: index0_def)
next
  case (Cons v vs)
  have s: "set xs = set (v # vs)" using Cons by (metis set_sort)
  have "sorted (v # vs)" using Cons by (metis sorted_sort)
  then have "Min (set xs) = v" unfolding s by (intro Min_eqI) auto
  moreover have "xs \<noteq> []" using s by auto
  ultimately show ?thesis using Cons by (simp add: index0_def)
qed

text \<open>The result in terms of sets: it depends on the set of node ids, the set of keys
  and the neighbour sets only.\<close>

lemma deriveStartNode_sets:
  "deriveStartNode nodes edgeMap =
     (let ids = node_id ` set nodes;
          out = out_keys nodes edgeMap;
          cand = {k \<in> out. \<not> (\<exists>j \<in> out. neighbor edgeMap j k)}
      in if cand \<noteq> {} then Some (Min cand)
         else if out = {} then (if ids = {} then None else Some (Min ids))
         else Some (Min out))"
proof -
  obtain win wout where
    loop: "fold (degree_step edgeMap (fold (\<lambda>node. set_add (node_id node)) nodes []))
             (map fst edgeMap) ([], []) = (win, wout)"
    by (cases "fold (degree_step edgeMap (fold (\<lambda>node. set_add (node_id node)) nodes []))
             (map fst edgeMap) ([], [])")
  have wout: "set wout = out_keys nodes edgeMap"
    using degree_loop [OF loop] by (auto simp: set_currentNodes out_keys_def)
  have win: "set win = {t. \<exists>k \<in> out_keys nodes edgeMap. neighbor edgeMap k t}"
    using degree_loop [OF loop] by (auto simp: set_currentNodes out_keys_def)
  have cand: "set (fold (candidate_step win wout) nodes []) =
      {k \<in> out_keys nodes edgeMap. \<not> (\<exists>j \<in> out_keys nodes edgeMap. neighbor edgeMap j k)}"
    unfolding candidate_loop wout win by (auto simp: out_keys_def)
  have ids: "set (map node_id nodes) = node_id ` set nodes" by simp
  show ?thesis
    unfolding deriveStartNode_def Let_def loop prod.case array_from_def index0_sort
      length_greater_0_conv length_0_conv
    unfolding set_empty [symmetric] cand wout ids
    by auto
qed

lemma fst_set_dom: "fst ` set em = dom (map_of em)"
  by (simp add: dom_map_of_conv_image_fst)

lemma no_empty_entry_lookup:
  "no_empty_entry em \<Longrightarrow> map_of em k = Some ns \<Longrightarrow> ns \<noteq> []"
  by (auto simp: no_empty_entry_def list_all_iff dest!: map_of_SomeD)

lemma spec_withOutdegree_keys:
  "no_empty_entry edgeMap \<Longrightarrow> spec_withOutdegree nodes edgeMap = out_keys nodes edgeMap"
  by (auto simp: spec_withOutdegree_def out_keys_def fst_set_dom dest: no_empty_entry_lookup)

text \<open>
  The three cases of the start node, on every edge map without an empty neighbour
  list.
\<close>

lemma deriveStartNode_no_empty_entry:
  assumes "no_empty_entry edgeMap"
  shows "deriveStartNode nodes edgeMap =
     (if spec_candidates nodes edgeMap \<noteq> {} then Some (Min (spec_candidates nodes edgeMap))
      else if spec_withOutdegree nodes edgeMap = {}
           then (if nodes = [] then None else Some (Min (node_id ` set nodes)))
      else Some (Min (spec_withOutdegree nodes edgeMap)))"
proof -
  have out: "spec_withOutdegree nodes edgeMap = out_keys nodes edgeMap"
    using assms by (rule spec_withOutdegree_keys)
  have cand: "spec_candidates nodes edgeMap =
      {k \<in> out_keys nodes edgeMap. \<not> (\<exists>j \<in> out_keys nodes edgeMap. neighbor edgeMap j k)}"
    unfolding spec_candidates_def spec_withIndegree_def out by (auto simp: out_keys_def)
  show ?thesis
    unfolding deriveStartNode_sets Let_def cand out by auto
qed

text \<open>
  C1: for every node list and every adjacency map, that is every map that
  \<open>convertToEdgeMap\<close> returns for a list of links, directed or not,
  \<open>deriveStartNode\<close> returns the smallest candidate when there is one; otherwise, when
  no node has an outgoing edge, the smallest of all node ids (\<^verbatim>\<open>undefined\<close> when the
  node list is empty); otherwise the smallest node id with an outgoing edge. Smallest
  is with respect to the lexicographic order of strings.
\<close>
theorem deriveStartNode_spec:
  assumes "convertToEdgeMap links directed = Inr edgeMap"
  shows "deriveStartNode nodes edgeMap =
     (if spec_candidates nodes edgeMap \<noteq> {} then Some (Min (spec_candidates nodes edgeMap))
      else if spec_withOutdegree nodes edgeMap = {}
           then (if nodes = [] then None else Some (Min (node_id ` set nodes)))
      else Some (Min (spec_withOutdegree nodes edgeMap)))"
  using no_empty_entry_convertToEdgeMap [OF assms] by (rule deriveStartNode_no_empty_entry)

text \<open>
  C7: on an empty node list \<open>deriveStartNode\<close> returns, whatever the adjacency map:
  its result is \<^verbatim>\<open>undefined\<close>, the value \<open>None\<close> that no id equals, and it returns
  that value on an empty node list only.
\<close>
theorem deriveStartNode_empty:
  "deriveStartNode [] edgeMap = None
   \<and> (deriveStartNode nodes edgeMap = None \<longleftrightarrow> nodes = [])"
proof -
  have "out_keys nodes edgeMap = {}" if "node_id ` set nodes = {}"
    using that by (simp add: out_keys_def)
  then have "deriveStartNode nodes edgeMap = None \<longleftrightarrow> node_id ` set nodes = {}"
    unfolding deriveStartNode_sets Let_def by auto
  moreover have "deriveStartNode [] edgeMap = None"
    by (simp add: deriveStartNode_sets out_keys_def)
  ultimately show ?thesis by simp
qed

lemma neighbor_cong:
  "map_option set (map_of em1 k) = map_option set (map_of em2 k)
     \<Longrightarrow> neighbor em1 k t = neighbor em2 k t"
  by (auto simp: neighbor_def split: option.splits)

lemma keys_cong:
  assumes "\<forall>k. map_option set (map_of em1 k) = map_option set (map_of em2 k)"
  shows "fst ` set em1 = fst ` set em2"
proof -
  have "dom (map_of em1) = dom (map_of em2)"
  proof (intro set_eqI)
    fix k
    have "map_option set (map_of em1 k) = map_option set (map_of em2 k)" using assms by simp
    then show "k \<in> dom (map_of em1) \<longleftrightarrow> k \<in> dom (map_of em2)"
      by (cases "map_of em1 k"; cases "map_of em2 k") auto
  qed
  then show ?thesis by (simp add: fst_set_dom)
qed

text \<open>
  C8: \<open>deriveStartNode\<close> does not depend on the order of its input: two node lists that
  are permutations of each other, with two adjacency maps that have the same keys and
  the same set of neighbours at every key, give the same result; and so does
  \<open>deriveStartNode\<close> after \<open>convertToEdgeMap\<close> on two lists of links that are
  permutations of each other (the same id, or the same exception of
  \<open>convertToEdgeMap\<close>).
\<close>
theorem deriveStartNode_order_independent:
  "(mset nodes1 = mset nodes2
      \<and> (\<forall>k. map_option set (map_of edgeMap1 k) = map_option set (map_of edgeMap2 k))
    \<longrightarrow> deriveStartNode nodes1 edgeMap1 = deriveStartNode nodes2 edgeMap2)
   \<and> (mset nodes1 = mset nodes2 \<and> mset links1 = mset links2
    \<longrightarrow> map_sum (\<lambda>e. e) (deriveStartNode nodes1) (convertToEdgeMap links1 directed)
        = map_sum (\<lambda>e. e) (deriveStartNode nodes2) (convertToEdgeMap links2 directed))"
proof -
  have main: "deriveStartNode ns1 em1 = deriveStartNode ns2 em2"
    if p: "mset ns1 = mset ns2"
      and m: "\<forall>k. map_option set (map_of em1 k) = map_option set (map_of em2 k)"
    for ns1 ns2 :: "'n MyGraphNodeType list" and em1 em2
  proof -
    have s: "set ns1 = set ns2" using p by (rule mset_eq_setD)
    then have out: "out_keys ns1 em1 = out_keys ns2 em2"
      using keys_cong [OF m] by (simp add: out_keys_def)
    have nb: "neighbor em1 k t = neighbor em2 k t" for k t
      using m by (intro neighbor_cong) simp
    show ?thesis
      unfolding deriveStartNode_sets out nb s ..
  qed
  have built: "map_sum (\<lambda>e. e) (deriveStartNode nodes1) (convertToEdgeMap links1 directed)
        = map_sum (\<lambda>e. e) (deriveStartNode nodes2) (convertToEdgeMap links2 directed)"
    if p: "mset nodes1 = mset nodes2" and l: "mset links1 = mset links2"
  proof -
    have s: "set links1 = set links2" using l by (rule mset_eq_setD)
    then have k: "key_ids links1 directed = key_ids links2 directed"
      by (simp add: key_ids_def)
    show ?thesis
    proof (cases "key_ids links1 directed \<inter> set object_prototype = {}")
      case True
      obtain em1 where em1: "convertToEdgeMap links1 directed = Inr em1"
        using True convertToEdgeMap_returns [of links1 directed] by blast
      obtain em2 where em2: "convertToEdgeMap links2 directed = Inr em2"
        using True convertToEdgeMap_returns [of links2 directed] unfolding k by blast
      have "\<forall>k. map_option set (map_of em1 k) = map_option set (map_of em2 k)"
        using convertToEdgeMap_same_sets [OF s em1 em2] by blast
      then show ?thesis unfolding em1 em2 using main [OF p] by simp
    next
      case False
      then have "convertToEdgeMap links1 directed = Inl TypeError"
        "convertToEdgeMap links2 directed = Inl TypeError"
        using k by (simp_all add: convertToEdgeMap_throws)
      then show ?thesis by simp
    qed
  qed
  show ?thesis using main built by blast
qed

lemmas derive_eval = deriveStartNode_def degree_step_def candidate_step_def set_add_def
  index0_def array_from_def

theorem deriveStartNode_spec_witness:
  "convertToEdgeMap [\<lparr>source = ''A'', target = ''B''\<rparr>, \<lparr>source = ''B'', target = ''C''\<rparr>] True
     = Inr [(''A'', [''B'']), (''B'', [''C''])]
   \<and> deriveStartNode
        [\<lparr>node_id = ''C'', label = ''c'', x = None :: 'n option, y = None\<rparr>,
         \<lparr>node_id = ''B'', label = ''b'', x = None, y = None\<rparr>,
         \<lparr>node_id = ''A'', label = ''a'', x = None, y = None\<rparr>]
        [(''A'', [''B'']), (''B'', [''C''])] = Some ''A''"
  (is "?built \<and> ?res")
proof -
  have b: ?built by (simp add: convert_eval)
  have e: ?res by (simp add: derive_eval)
  show ?thesis
    using b e
      deriveStartNode_spec [OF b,
        of "[\<lparr>node_id = ''C'', label = ''c'', x = None :: 'n option, y = None\<rparr>,
             \<lparr>node_id = ''B'', label = ''b'', x = None, y = None\<rparr>,
             \<lparr>node_id = ''A'', label = ''a'', x = None, y = None\<rparr>]"]
    by blast
qed

text \<open>
  Outside the maps that \<open>convertToEdgeMap\<close> returns: a key with an empty neighbour
  list counts as a node with an outgoing edge.
\<close>

lemma deriveStartNode_key_without_neighbours:
  "spec_withOutdegree
      [\<lparr>node_id = ''A'', label = ''a'', x = None :: 'n option, y = None\<rparr>,
       \<lparr>node_id = ''B'', label = ''b'', x = None :: 'n option, y = None\<rparr>] [(''B'', [])] = {}
   \<and> spec_candidates
      [\<lparr>node_id = ''A'', label = ''a'', x = None :: 'n option, y = None\<rparr>,
       \<lparr>node_id = ''B'', label = ''b'', x = None :: 'n option, y = None\<rparr>] [(''B'', [])] = {}
   \<and> Min (node_id `
        set [\<lparr>node_id = ''A'', label = ''a'', x = None :: 'n option, y = None\<rparr>,
             \<lparr>node_id = ''B'', label = ''b'', x = None :: 'n option, y = None\<rparr>]) = ''A''
   \<and> deriveStartNode
      [\<lparr>node_id = ''A'', label = ''a'', x = None :: 'n option, y = None\<rparr>,
       \<lparr>node_id = ''B'', label = ''b'', x = None :: 'n option, y = None\<rparr>] [(''B'', [])] = Some ''B''"
  by (simp add: derive_eval spec_withOutdegree_def spec_candidates_def)

theorem deriveStartNode_empty_witness:
  "deriveStartNode [] [(''A'', [''B'']), (''B'', [''A''])] = None
   \<and> deriveStartNode [\<lparr>node_id = ''A'', label = ''a'', x = None :: 'n option, y = None\<rparr>]
         [(''A'', [''B'']), (''B'', [''A''])] \<noteq> None"
  using deriveStartNode_empty [of "[(''A'', [''B'']), (''B'', [''A''])]"
      "[\<lparr>node_id = ''A'', label = ''a'', x = None :: 'n option, y = None\<rparr>]"]
  by simp

theorem deriveStartNode_order_independent_witness:
  "mset [\<lparr>node_id = ''A'', label = ''a'', x = None :: 'n option, y = None\<rparr>,
          \<lparr>node_id = ''B'', label = ''b'', x = None, y = None\<rparr>,
          \<lparr>node_id = ''C'', label = ''c'', x = None, y = None\<rparr>]
     = mset [\<lparr>node_id = ''C'', label = ''c'', x = None :: 'n option, y = None\<rparr>,
          \<lparr>node_id = ''A'', label = ''a'', x = None, y = None\<rparr>,
          \<lparr>node_id = ''B'', label = ''b'', x = None, y = None\<rparr>]
   \<and> (\<forall>k. map_option set (map_of [(''B'', [''A'', ''C'']), (''C'', [''A''])] k)
          = map_option set (map_of [(''C'', [''A'']), (''B'', [''C'', ''A''])] k))
   \<and> mset [\<lparr>source = ''B'', target = ''A''\<rparr>, \<lparr>source = ''B'', target = ''C''\<rparr>,
          \<lparr>source = ''C'', target = ''A''\<rparr>]
     = mset [\<lparr>source = ''C'', target = ''A''\<rparr>, \<lparr>source = ''B'', target = ''C''\<rparr>,
          \<lparr>source = ''B'', target = ''A''\<rparr>]
   \<and> deriveStartNode
         [\<lparr>node_id = ''A'', label = ''a'', x = None :: 'n option, y = None\<rparr>,
          \<lparr>node_id = ''B'', label = ''b'', x = None, y = None\<rparr>,
          \<lparr>node_id = ''C'', label = ''c'', x = None, y = None\<rparr>]
         [(''B'', [''A'', ''C'']), (''C'', [''A''])]
     = deriveStartNode
         [\<lparr>node_id = ''C'', label = ''c'', x = None :: 'n option, y = None\<rparr>,
          \<lparr>node_id = ''A'', label = ''a'', x = None, y = None\<rparr>,
          \<lparr>node_id = ''B'', label = ''b'', x = None, y = None\<rparr>]
         [(''C'', [''A'']), (''B'', [''C'', ''A''])]
   \<and> map_sum (\<lambda>e. e)
         (deriveStartNode
         [\<lparr>node_id = ''A'', label = ''a'', x = None :: 'n option, y = None\<rparr>,
          \<lparr>node_id = ''B'', label = ''b'', x = None, y = None\<rparr>,
          \<lparr>node_id = ''C'', label = ''c'', x = None, y = None\<rparr>])
         (convertToEdgeMap
         [\<lparr>source = ''B'', target = ''A''\<rparr>, \<lparr>source = ''B'', target = ''C''\<rparr>,
          \<lparr>source = ''C'', target = ''A''\<rparr>] True)
     = map_sum (\<lambda>e. e)
         (deriveStartNode
         [\<lparr>node_id = ''C'', label = ''c'', x = None :: 'n option, y = None\<rparr>,
          \<lparr>node_id = ''A'', label = ''a'', x = None, y = None\<rparr>,
          \<lparr>node_id = ''B'', label = ''b'', x = None, y = None\<rparr>])
         (convertToEdgeMap
         [\<lparr>source = ''C'', target = ''A''\<rparr>, \<lparr>source = ''B'', target = ''C''\<rparr>,
          \<lparr>source = ''B'', target = ''A''\<rparr>] True)"
  (is "?perm \<and> ?same \<and> ?links \<and> ?res1 \<and> ?res2")
proof -
  have p: ?perm by simp
  have m: ?same by auto
  have l: ?links by simp
  show ?thesis
    using p m l
      deriveStartNode_order_independent
        [of "[\<lparr>node_id = ''A'', label = ''a'', x = None :: 'n option, y = None\<rparr>,
          \<lparr>node_id = ''B'', label = ''b'', x = None, y = None\<rparr>,
          \<lparr>node_id = ''C'', label = ''c'', x = None, y = None\<rparr>]"
            "[\<lparr>node_id = ''C'', label = ''c'', x = None :: 'n option, y = None\<rparr>,
          \<lparr>node_id = ''A'', label = ''a'', x = None, y = None\<rparr>,
          \<lparr>node_id = ''B'', label = ''b'', x = None, y = None\<rparr>]"
            "[(''B'', [''A'', ''C'']), (''C'', [''A''])]"
            "[(''C'', [''A'']), (''B'', [''C'', ''A''])]"
            "[\<lparr>source = ''B'', target = ''A''\<rparr>, \<lparr>source = ''B'', target = ''C''\<rparr>,
          \<lparr>source = ''C'', target = ''A''\<rparr>]"
            "[\<lparr>source = ''C'', target = ''A''\<rparr>, \<lparr>source = ''B'', target = ''C''\<rparr>,
          \<lparr>source = ''B'', target = ''A''\<rparr>]"
            True]
    by blast
qed

section \<open>Properties of removeRepeatedEdges\<close>

lemmas dedupe_eval = removeRepeatedEdges_def key_def backKey_def set_add_def

lemma remove_loop_append:
  "remove_loop (xs @ ys) st = remove_loop ys (remove_loop xs st)"
  by (induction xs st rule: remove_loop.induct) auto

lemma remove_loop_seen:
  "set seen = key ` set rtn \<Longrightarrow>
   set (fst (remove_loop links (seen, rtn))) = key ` set (snd (remove_loop links (seen, rtn)))"
  by (induction links "(seen, rtn)" arbitrary: seen rtn rule: remove_loop.induct)
     (auto simp: set_add_def)

lemma removeRepeatedEdges_Nil: "removeRepeatedEdges [] = []"
  by (simp add: removeRepeatedEdges_def)

text \<open>One more link at the end of the input: it is dropped exactly when its back key
  is the key of a link emitted before.\<close>

lemma removeRepeatedEdges_snoc:
  "removeRepeatedEdges (links @ [link]) =
     (if backKey link \<in> key ` set (removeRepeatedEdges links) then removeRepeatedEdges links
      else removeRepeatedEdges links @ [link])"
proof -
  obtain seen rtn where st: "remove_loop links ([], []) = (seen, rtn)"
    by (cases "remove_loop links ([], [])")
  have "set seen = key ` set rtn"
    using remove_loop_seen [of "[]" "[]" links] st by simp
  then show ?thesis
    by (simp add: removeRepeatedEdges_def remove_loop_append st)
qed

lemma removeRepeatedEdges_subset: "set (removeRepeatedEdges links) \<subseteq> set links"
  by (induction links rule: rev_induct)
     (auto simp: removeRepeatedEdges_Nil removeRepeatedEdges_snoc)

lemma removeRepeatedEdges_prefix:
  "set (removeRepeatedEdges xs) \<subseteq> set (removeRepeatedEdges (xs @ ys))"
  by (induction ys rule: rev_induct)
     (auto simp: removeRepeatedEdges_snoc simp flip: append_assoc)

text \<open>Links that come later never change what has been emitted.\<close>

lemma removeRepeatedEdges_append:
  "\<exists>zs. removeRepeatedEdges (xs @ ys) = removeRepeatedEdges xs @ zs"
proof (induction ys rule: rev_induct)
  case Nil
  show ?case by simp
next
  case (snoc y ys)
  then obtain zs where zs: "removeRepeatedEdges (xs @ ys) = removeRepeatedEdges xs @ zs" by blast
  show ?case
    using removeRepeatedEdges_snoc [of "xs @ ys" y] zs
    by (cases "backKey y \<in> key ` set (removeRepeatedEdges (xs @ ys))") auto
qed

lemma mirror_key: "mirror e1 e2 \<Longrightarrow> backKey e1 = key e2"
  by (simp add: mirror_def key_def backKey_def)

lemma mirror_sym: "mirror e1 e2 \<Longrightarrow> mirror e2 e1"
  by (simp add: mirror_def)

lemma unambiguousD:
  "unambiguous links \<Longrightarrow> e1 \<in> set links \<Longrightarrow> e2 \<in> set links \<Longrightarrow> backKey e1 = key e2
     \<Longrightarrow> mirror e1 e2"
  by (auto simp: unambiguous_def list_all_iff)

lemma unambiguous_prefix: "unambiguous (xs @ ys) \<Longrightarrow> unambiguous xs"
  by (auto simp: unambiguous_def list_all_iff)

text \<open>With unambiguous keys the test of the back key is the test for an emitted mirror.\<close>

lemma backKey_seen_iff:
  assumes "unambiguous (links @ [link])"
  shows "backKey link \<in> key ` set (removeRepeatedEdges links)
           \<longleftrightarrow> (\<exists>e \<in> set (removeRepeatedEdges links). mirror e link)"
proof
  assume "backKey link \<in> key ` set (removeRepeatedEdges links)"
  then obtain e where e: "e \<in> set (removeRepeatedEdges links)" "backKey link = key e"
    by auto
  then have "e \<in> set (links @ [link])" using removeRepeatedEdges_subset [of links] by auto
  moreover have "link \<in> set (links @ [link])" by simp
  ultimately have "mirror link e" using e(2) by (intro unambiguousD [OF assms])
  then have "mirror e link" by (rule mirror_sym)
  then show "\<exists>e \<in> set (removeRepeatedEdges links). mirror e link"
    using e(1) by blast
next
  assume "\<exists>e \<in> set (removeRepeatedEdges links). mirror e link"
  then obtain e where e: "e \<in> set (removeRepeatedEdges links)" "mirror e link" by auto
  from e(2) have "backKey link = key e" by (rule mirror_key [OF mirror_sym])
  then show "backKey link \<in> key ` set (removeRepeatedEdges links)"
    using e(1) by simp
qed

lemma mirror_free_aux:
  "e1 \<in> set (removeRepeatedEdges l) \<Longrightarrow> e2 \<in> set (removeRepeatedEdges l) \<Longrightarrow> mirror e1 e2
     \<Longrightarrow> source e1 = target e1"
proof (induction l rule: rev_induct)
  case Nil
  then show ?case by (simp add: removeRepeatedEdges_Nil)
next
  case (snoc e l)
  show ?case
  proof (cases "backKey e \<in> key ` set (removeRepeatedEdges l)")
    case True
    then show ?thesis using snoc by (simp add: removeRepeatedEdges_snoc)
  next
    case False
    have m: "mirror e2 e1" using snoc.prems(3) by (rule mirror_sym)
    have out: "set (removeRepeatedEdges (l @ [e])) = insert e (set (removeRepeatedEdges l))"
      using False by (simp add: removeRepeatedEdges_snoc)
    have no: "e' \<in> set (removeRepeatedEdges l) \<Longrightarrow> \<not> mirror e e'" for e'
      using False mirror_key [of e e'] by auto
    consider "e1 \<in> set (removeRepeatedEdges l)" "e2 \<in> set (removeRepeatedEdges l)"
      | "e1 = e" "e2 \<in> set (removeRepeatedEdges l)"
      | "e2 = e" "e1 \<in> set (removeRepeatedEdges l)"
      | "e1 = e" "e2 = e"
      using snoc.prems(1,2) unfolding out by auto
    then show ?thesis
    proof cases
      case 1
      then show ?thesis using snoc.IH snoc.prems(3) by simp
    next
      case 2
      then show ?thesis using no snoc.prems(3) by simp
    next
      case 3
      then show ?thesis using no m by simp
    next
      case 4
      then show ?thesis using snoc.prems(3) unfolding mirror_def by blast
    qed
  qed
qed

text \<open>
  C9: \<open>removeRepeatedEdges\<close> is idempotent: run on its own output, it returns that
  output unchanged, for every list of links.
\<close>
theorem removeRepeatedEdges_idempotent:
  "removeRepeatedEdges (removeRepeatedEdges l) = removeRepeatedEdges l"
proof (induction l rule: rev_induct)
  case Nil
  show ?case by (simp add: removeRepeatedEdges_Nil)
next
  case (snoc e l)
  show ?case
  proof (cases "backKey e \<in> key ` set (removeRepeatedEdges l)")
    case True
    then show ?thesis using snoc by (simp add: removeRepeatedEdges_snoc)
  next
    case False
    then show ?thesis using snoc
      by (simp add: removeRepeatedEdges_snoc [of l e]
                    removeRepeatedEdges_snoc [of "removeRepeatedEdges l" e])
  qed
qed

text \<open>
  C3 (amended): on a list of links with unambiguous key strings, the link processed
  last is dropped if and only if a mirror of it (its target as source, its source as
  target) is among the links emitted before it; its own forward key is never looked
  up, so an exact repeat of an emitted link whose two endpoints differ is not dropped.
  The links that follow in the input do not change what has been emitted.
\<close>
theorem removeRepeatedEdges_drops_mirrors:
  assumes "unambiguous (links @ [link])"
  shows "removeRepeatedEdges (links @ [link]) =
           (if \<exists>e \<in> set (removeRepeatedEdges links). mirror e link
            then removeRepeatedEdges links else removeRepeatedEdges links @ [link])
         \<and> (link \<in> set (removeRepeatedEdges links) \<and> source link \<noteq> target link
              \<longrightarrow> removeRepeatedEdges (links @ [link]) = removeRepeatedEdges links @ [link])
         \<and> (\<exists>zs. removeRepeatedEdges (links @ link # rest) =
                     removeRepeatedEdges (links @ [link]) @ zs)"
proof -
  have eq: "removeRepeatedEdges (links @ [link]) =
           (if \<exists>e \<in> set (removeRepeatedEdges links). mirror e link
            then removeRepeatedEdges links else removeRepeatedEdges links @ [link])"
    using backKey_seen_iff [OF assms] by (simp add: removeRepeatedEdges_snoc)
  have "\<not> (\<exists>e \<in> set (removeRepeatedEdges links). mirror e link)"
    if "link \<in> set (removeRepeatedEdges links)" "source link \<noteq> target link"
  proof
    assume "\<exists>e \<in> set (removeRepeatedEdges links). mirror e link"
    then obtain e where "e \<in> set (removeRepeatedEdges links)" "mirror e link" by auto
    then have "source link = target link"
      using mirror_free_aux [of link links e] mirror_sym [of e link] that(1) by blast
    then show False using that(2) by simp
  qed
  then have keep: "link \<in> set (removeRepeatedEdges links) \<and> source link \<noteq> target link
      \<longrightarrow> removeRepeatedEdges (links @ [link]) = removeRepeatedEdges links @ [link]"
    using eq by auto
  have later: "\<exists>zs. removeRepeatedEdges (links @ link # rest) =
      removeRepeatedEdges (links @ [link]) @ zs"
    using removeRepeatedEdges_append [of "links @ [link]" rest] by simp
  show ?thesis using eq keep later by (intro conjI)
qed

text \<open>
  The output of \<open>removeRepeatedEdges\<close> never contains both a link from \<open>a\<close> to \<open>b\<close>
  and a link from \<open>b\<close> to \<open>a\<close> with \<open>a \<noteq> b\<close>, for every list of links; and where the
  key strings are unambiguous, a link that no mirror precedes in the input is emitted.
\<close>

lemma removeRepeatedEdges_mirror_free:
  "(mirror e1 e2 \<and> source e1 \<noteq> target e1
      \<longrightarrow> \<not> (e1 \<in> set (removeRepeatedEdges l) \<and> e2 \<in> set (removeRepeatedEdges l)))
   \<and> (unambiguous (pre @ e # post) \<and> (\<forall>e' \<in> set pre. \<not> mirror e' e)
      \<longrightarrow> e \<in> set (removeRepeatedEdges (pre @ e # post)))"
proof (intro conjI impI)
  assume "mirror e1 e2 \<and> source e1 \<noteq> target e1"
  then show "\<not> (e1 \<in> set (removeRepeatedEdges l) \<and> e2 \<in> set (removeRepeatedEdges l))"
    using mirror_free_aux [of e1 l e2] by blast
next
  assume a: "unambiguous (pre @ e # post) \<and> (\<forall>e' \<in> set pre. \<not> mirror e' e)"
  have split: "pre @ e # post = (pre @ [e]) @ post" by simp
  have u: "unambiguous (pre @ [e])"
    using a unambiguous_prefix [of "pre @ [e]" post] by (simp only: split)
  have "\<not> (\<exists>e' \<in> set (removeRepeatedEdges pre). mirror e' e)"
    using a removeRepeatedEdges_subset [of pre] by auto
  then have "removeRepeatedEdges (pre @ [e]) = removeRepeatedEdges pre @ [e]"
    using backKey_seen_iff [OF u] by (simp add: removeRepeatedEdges_snoc)
  then have "e \<in> set (removeRepeatedEdges (pre @ [e]))" by simp
  then show "e \<in> set (removeRepeatedEdges (pre @ e # post))"
    using removeRepeatedEdges_prefix [of "pre @ [e]" post] by (auto simp only: split)
qed

theorem removeRepeatedEdges_idempotent_witness:
  "removeRepeatedEdges (removeRepeatedEdges
      [\<lparr>source = ''A'', target = ''B''\<rparr>, \<lparr>source = ''B'', target = ''A''\<rparr>,
       \<lparr>source = ''A'', target = ''B''\<rparr>])
   = [\<lparr>source = ''A'', target = ''B''\<rparr>, \<lparr>source = ''A'', target = ''B''\<rparr>]"
  using removeRepeatedEdges_idempotent
    [of "[\<lparr>source = ''A'', target = ''B''\<rparr>, \<lparr>source = ''B'', target = ''A''\<rparr>,
          \<lparr>source = ''A'', target = ''B''\<rparr>]"]
  by (simp add: dedupe_eval)

theorem removeRepeatedEdges_drops_mirrors_witness:
  "unambiguous ([\<lparr>source = ''A'', target = ''B''\<rparr>] @ [\<lparr>source = ''A'', target = ''B''\<rparr>])
   \<and> \<lparr>source = ''A'', target = ''B''\<rparr> \<in> set (removeRepeatedEdges [\<lparr>source = ''A'', target = ''B''\<rparr>])
   \<and> removeRepeatedEdges ([\<lparr>source = ''A'', target = ''B''\<rparr>] @ [\<lparr>source = ''A'', target = ''B''\<rparr>])
       = [\<lparr>source = ''A'', target = ''B''\<rparr>, \<lparr>source = ''A'', target = ''B''\<rparr>]"
proof -
  have u: "unambiguous ([\<lparr>source = ''A'', target = ''B''\<rparr>] @ [\<lparr>source = ''A'', target = ''B''\<rparr>])"
    by (simp add: unambiguous_def mirror_def key_def backKey_def)
  have m: "\<lparr>source = ''A'', target = ''B''\<rparr> \<in> set (removeRepeatedEdges [\<lparr>source = ''A'', target = ''B''\<rparr>])"
    by (simp add: dedupe_eval)
  show ?thesis
    using u m removeRepeatedEdges_drops_mirrors [OF u] by (simp add: dedupe_eval mirror_def)
qed

theorem removeRepeatedEdges_same_direction_counterexample:
  "removeRepeatedEdges [\<lparr>source = ''A'', target = ''A''\<rparr>, \<lparr>source = ''A'', target = ''A''\<rparr>]
     = [\<lparr>source = ''A'', target = ''A''\<rparr>]
   \<and> removeRepeatedEdges [\<lparr>source = ''B'', target = ''A''\<rparr>, \<lparr>source = ''A'', target = ''B''\<rparr>,
        \<lparr>source = ''A'', target = ''B''\<rparr>]
     = [\<lparr>source = ''B'', target = ''A''\<rparr>]
   \<and> removeRepeatedEdges [\<lparr>source = ''x-linkTo-y'', target = ''z''\<rparr>,
        \<lparr>source = ''y-linkTo-z'', target = ''x''\<rparr>]
     = [\<lparr>source = ''x-linkTo-y'', target = ''z''\<rparr>]"
  by (simp add: dedupe_eval)

text \<open>
  C10: the code at three links whose key strings collide: the back key of the second
  link, \<^verbatim>\<open>x-linkTo-y-linkTo-z\<close>, is the key of the first, so the second link is
  dropped although no mirror of it precedes it, and its mirror, the third link, is
  emitted: of the pair, the direction that occurs first is not the one kept.
\<close>
theorem removeRepeatedEdges_first_direction_lost:
  "removeRepeatedEdges
     [\<lparr>source = ''x-linkTo-y'', target = ''z''\<rparr>,
      \<lparr>source = ''y-linkTo-z'', target = ''x''\<rparr>,
      \<lparr>source = ''x'', target = ''y-linkTo-z''\<rparr>]
   = [\<lparr>source = ''x-linkTo-y'', target = ''z''\<rparr>, \<lparr>source = ''x'', target = ''y-linkTo-z''\<rparr>]"
  by (simp add: dedupe_eval)

lemma dash_split:
  "c \<notin> set a \<Longrightarrow> c \<notin> set b \<Longrightarrow> a @ c # r = b @ c # r' \<Longrightarrow> a = b \<and> r = r'"
proof (induction a arbitrary: b)
  case Nil
  then show ?case by (cases b) auto
next
  case (Cons x a)
  then show ?case by (cases b) auto
qed

lemma dash_free_unambiguous: "dash_free links \<Longrightarrow> unambiguous links"
  unfolding dash_free_def unambiguous_def list_all_iff
proof (intro ballI impI)
  fix e1 e2
  assume df: "\<forall>e\<in>set links. CHR ''-'' \<notin> set (source e) \<and> CHR ''-'' \<notin> set (target e)"
    and e: "e1 \<in> set links" "e2 \<in> set links" and k: "backKey e1 = key e2"
  have "target e1 @ CHR ''-'' # (''linkTo-'' @ source e1)
        = source e2 @ CHR ''-'' # (''linkTo-'' @ target e2)"
    using k by (simp add: backKey_def key_def)
  then have "target e1 = source e2 \<and> ''linkTo-'' @ source e1 = ''linkTo-'' @ target e2"
    using df e by (intro dash_split) auto
  then show "mirror e1 e2" by (simp add: mirror_def)
qed

section \<open>Properties of the traversal\<close>

lemma dfs_seen_mono:
  "dfs nodeId edgeMap st = Inr st' \<Longrightarrow> set (fst st) \<subseteq> set (fst st')"
  "dfs_children children edgeMap st = Inr st' \<Longrightarrow> set (fst st) \<subseteq> set (fst st')"
  using dfs_seen_mono_dom dfs_total by blast+

lemma dfs_unseen:
  assumes "nodeId \<notin> set seen" and "dfs nodeId edgeMap (seen, collected) = Inr st'"
  shows "(js_get edgeMap nodeId = Absent
            \<and> st' = (set_add nodeId seen, set_add nodeId collected))
         \<or> (\<exists>children. js_get edgeMap nodeId = Own children
            \<and> dfs_children children edgeMap (set_add nodeId seen, set_add nodeId collected)
                 = Inr st')"
  using assms by (cases "js_get edgeMap nodeId") auto

lemma dfs_children_Cons:
  assumes "dfs_children (child # children) edgeMap st = Inr st'"
  shows "\<exists>st1. dfs child edgeMap st = Inr st1 \<and> dfs_children children edgeMap st1 = Inr st'"
  using assms by (cases "dfs child edgeMap st") auto

text \<open>The ids added to \<open>collected\<close> are the ids added to \<open>seen\<close>.\<close>

lemma dfs_collected:
  "dfs nodeId edgeMap st = Inr st' \<Longrightarrow>
     set (snd st') = set (snd st) \<union> (set (fst st') - set (fst st))"
  "dfs_children children edgeMap st = Inr st' \<Longrightarrow>
     set (snd st') = set (snd st) \<union> (set (fst st') - set (fst st))"
proof (induction nodeId edgeMap st and children edgeMap st arbitrary: st' and st'
    rule: dfs_dfs_children.induct)
  case (1 nodeId edgeMap seen collected)
  show ?case
  proof (cases "nodeId \<in> set seen")
    case True
    then show ?thesis using "1.prems" by auto
  next
    case False
    from dfs_unseen [OF False "1.prems"] show ?thesis
    proof (elim disjE exE conjE)
      assume "st' = (set_add nodeId seen, set_add nodeId collected)"
      then show ?thesis using False by (auto simp: set_set_add)
    next
      fix children
      assume own: "js_get edgeMap nodeId = Own children"
        and ch: "dfs_children children edgeMap (set_add nodeId seen, set_add nodeId collected)
                   = Inr st'"
      have "set (set_add nodeId seen) \<subseteq> set (fst st')"
        using dfs_seen_mono(2) [OF ch] by simp
      then show ?thesis using False "1.IH" [OF False own ch]
        by (auto simp: set_set_add)
    qed
  qed
next
  case (2 edgeMap st)
  then show ?case by simp
next
  case (3 child children edgeMap st)
  from dfs_children_Cons [OF "3.prems"] obtain st1 where
    st1: "dfs child edgeMap st = Inr st1" "dfs_children children edgeMap st1 = Inr st'"
    by blast
  have "set (fst st) \<subseteq> set (fst st1)" "set (fst st1) \<subseteq> set (fst st')"
    using st1 dfs_seen_mono by blast+
  then show ?case using "3.IH"(1) [OF st1(1)] "3.IH"(2) [OF st1] by auto
qed

lemma dfs_self: "dfs nodeId edgeMap st = Inr st' \<Longrightarrow> nodeId \<in> set (fst st')"
proof (cases st)
  case (Pair seen collected)
  assume r: "dfs nodeId edgeMap st = Inr st'"
  show ?thesis
  proof (cases "nodeId \<in> set seen")
    case True
    then show ?thesis using Pair r by auto
  next
    case False
    have "nodeId \<in> set (set_add nodeId seen)" by (simp add: set_set_add)
    then show ?thesis
      using dfs_unseen [OF False r [unfolded Pair]] dfs_seen_mono(2) by fastforce
  qed
qed

lemma dfs_children_seen:
  "dfs_children children edgeMap st = Inr st' \<Longrightarrow> set children \<subseteq> set (fst st')"
proof (induction children arbitrary: st)
  case Nil
  show ?case by simp
next
  case (Cons child children)
  from dfs_children_Cons [OF Cons.prems] obtain st1 where
    st1: "dfs child edgeMap st = Inr st1" "dfs_children children edgeMap st1 = Inr st'"
    by blast
  have "child \<in> set (fst st1)" using st1(1) by (rule dfs_self)
  then have "child \<in> set (fst st')" using dfs_seen_mono(2) [OF st1(2)] by blast
  then show ?case using Cons.IH [OF st1(2)] by simp
qed

lemma js_get_Own_neighbor: "js_get edgeMap a = Own ns \<Longrightarrow> neighbor edgeMap a b \<longleftrightarrow> b \<in> set ns"
  by (simp add: js_get_Own neighbor_def)

lemma js_get_Absent_neighbor: "js_get edgeMap a = Absent \<Longrightarrow> \<not> neighbor edgeMap a b"
  by (simp add: js_get_Absent neighbor_def)

text \<open>Every newly seen id is reachable from where the traversal started.\<close>

lemma dfs_reachable:
  "dfs nodeId edgeMap st = Inr st' \<Longrightarrow>
     set (fst st') - set (fst st) \<subseteq> (edge_rel edgeMap)\<^sup>* `` {nodeId}"
  "dfs_children children edgeMap st = Inr st' \<Longrightarrow>
     set (fst st') - set (fst st) \<subseteq> (edge_rel edgeMap)\<^sup>* `` set children"
proof (induction nodeId edgeMap st and children edgeMap st arbitrary: st' and st'
    rule: dfs_dfs_children.induct)
  case (1 nodeId edgeMap seen collected)
  show ?case
  proof (cases "nodeId \<in> set seen")
    case True
    then show ?thesis using "1.prems" by auto
  next
    case False
    from dfs_unseen [OF False "1.prems"] show ?thesis
    proof (elim disjE exE conjE)
      assume "st' = (set_add nodeId seen, set_add nodeId collected)"
      then show ?thesis by (auto simp: set_set_add)
    next
      fix children
      assume own: "js_get edgeMap nodeId = Own children"
        and ch: "dfs_children children edgeMap (set_add nodeId seen, set_add nodeId collected)
                   = Inr st'"
      have step: "(edge_rel edgeMap)\<^sup>* `` set children \<subseteq> (edge_rel edgeMap)\<^sup>* `` {nodeId}"
      proof
        fix v assume "v \<in> (edge_rel edgeMap)\<^sup>* `` set children"
        then obtain c where c: "c \<in> set children" "(c, v) \<in> (edge_rel edgeMap)\<^sup>*" by auto
        have "(nodeId, c) \<in> edge_rel edgeMap"
          using own c(1) by (simp add: edge_rel_def js_get_Own_neighbor)
        then show "v \<in> (edge_rel edgeMap)\<^sup>* `` {nodeId}"
          using c(2) by (auto intro: converse_rtrancl_into_rtrancl)
      qed
      show ?thesis using "1.IH" [OF False own ch] step
        by (auto simp: set_set_add)
    qed
  qed
next
  case (2 edgeMap st)
  then show ?case by simp
next
  case (3 child children edgeMap st)
  from dfs_children_Cons [OF "3.prems"] obtain st1 where
    st1: "dfs child edgeMap st = Inr st1" "dfs_children children edgeMap st1 = Inr st'"
    by blast
  show ?case using "3.IH"(1) [OF st1(1)] "3.IH"(2) [OF st1] by auto
qed

text \<open>Every neighbour of a newly seen id has been seen when the traversal returns.\<close>

lemma dfs_closes:
  "dfs nodeId edgeMap st = Inr st' \<Longrightarrow> v \<in> set (fst st') \<Longrightarrow> v \<notin> set (fst st)
     \<Longrightarrow> neighbor edgeMap v w \<Longrightarrow> w \<in> set (fst st')"
  "dfs_children children edgeMap st = Inr st' \<Longrightarrow> v \<in> set (fst st') \<Longrightarrow> v \<notin> set (fst st)
     \<Longrightarrow> neighbor edgeMap v w \<Longrightarrow> w \<in> set (fst st')"
proof (induction nodeId edgeMap st and children edgeMap st arbitrary: st' and st'
    rule: dfs_dfs_children.induct)
  case (1 nodeId edgeMap seen collected)
  have unseen: "nodeId \<notin> set seen" using "1.prems"(1,2,3) by (auto split: if_splits)
  from dfs_unseen [OF unseen "1.prems"(1)] show ?case
  proof (elim disjE exE conjE)
    assume a: "js_get edgeMap nodeId = Absent"
      and "st' = (set_add nodeId seen, set_add nodeId collected)"
    then have "v = nodeId" using "1.prems"(2,3) by (simp add: set_set_add)
    then show ?thesis using a "1.prems"(4) by (simp add: js_get_Absent_neighbor)
  next
    fix children
    let ?st = "(set_add nodeId seen, set_add nodeId collected)"
    assume own: "js_get edgeMap nodeId = Own children"
      and ch: "dfs_children children edgeMap ?st = Inr st'"
    show ?thesis
    proof (cases "v = nodeId")
      case True
      then have "w \<in> set children" using own "1.prems"(4) by (simp add: js_get_Own_neighbor)
      then show ?thesis using dfs_children_seen [OF ch] by blast
    next
      case False
      then have "v \<notin> set (fst ?st)" using "1.prems"(3) by (simp add: set_set_add)
      then show ?thesis
        using "1.IH" [OF unseen own ch "1.prems"(2) _ "1.prems"(4)] by blast
    qed
  qed
next
  case (2 edgeMap st)
  then show ?case by simp
next
  case (3 child children edgeMap st)
  from dfs_children_Cons [OF "3.prems"(1)] obtain st1 where
    st1: "dfs child edgeMap st = Inr st1" "dfs_children children edgeMap st1 = Inr st'"
    by blast
  have mono: "set (fst st1) \<subseteq> set (fst st')" using st1(2) by (rule dfs_seen_mono)
  show ?case
  proof (cases "v \<in> set (fst st1)")
    case True
    then have "w \<in> set (fst st1)"
      using "3.IH"(1) [OF st1(1) _ "3.prems"(3,4)] by blast
    then show ?thesis using mono by blast
  next
    case False
    then show ?thesis using "3.IH"(2) [OF st1 "3.prems"(2) _ "3.prems"(4)] by blast
  qed
qed

text \<open>
  The traversal returns when no name of \<^verbatim>\<open>Object.prototype\<close> is met: neither the
  start nor a neighbour in the edge map.
\<close>

lemma dfs_returns:
  "\<forall>a b. neighbor edgeMap a b \<longrightarrow> b \<notin> set object_prototype \<Longrightarrow>
     nodeId \<notin> set object_prototype \<Longrightarrow> \<exists>st'. dfs nodeId edgeMap st = Inr st'"
  "\<forall>a b. neighbor edgeMap a b \<longrightarrow> b \<notin> set object_prototype \<Longrightarrow>
     set children \<inter> set object_prototype = {} \<Longrightarrow>
       \<exists>st'. dfs_children children edgeMap st = Inr st'"
proof (induction nodeId edgeMap st and children edgeMap st rule: dfs_dfs_children.induct)
  case (1 nodeId edgeMap seen collected)
  show ?case
  proof (cases "js_get edgeMap nodeId")
    case (Own children)
    have "neighbor edgeMap nodeId c" if "c \<in> set children" for c
      using Own that by (simp add: js_get_Own_neighbor)
    then have "set children \<inter> set object_prototype = {}"
      using "1.prems"(1) by blast
    then show ?thesis using "1.IH" [OF _ Own "1.prems"(1)] Own by auto
  next
    case Inherited
    then show ?thesis using "1.prems"(2) by (simp add: js_get_Inherited)
  next
    case Absent
    then show ?thesis by simp
  qed
next
  case (2 edgeMap st)
  show ?case by simp
next
  case (3 child children edgeMap st)
  from "3.prems" have c: "child \<notin> set object_prototype"
    and cs: "set children \<inter> set object_prototype = {}" by auto
  from "3.IH"(1) [OF "3.prems"(1) c] obtain st1 where st1: "dfs child edgeMap st = Inr st1"
    by blast
  from "3.IH"(2) [OF st1 "3.prems"(1) cs] show ?case using st1 by simp
qed

section \<open>Properties of getDisconnectedComponents\<close>

declare dfs.simps [simp del]

lemma components_loop_seen:
  "nodeId \<in> set seen \<Longrightarrow>
     components_loop nodeMap edgeMap startNode (nodeId # ids) (seen, rtn) =
     components_loop nodeMap edgeMap startNode ids (seen, rtn)"
  by simp

lemma components_loop_unseen:
  "nodeId \<notin> set seen \<Longrightarrow> dfs nodeId edgeMap (seen, []) = Inr (seen', collected) \<Longrightarrow>
     components_loop nodeMap edgeMap startNode (nodeId # ids) (seen, rtn) =
     components_loop nodeMap edgeMap startNode ids
       (seen', if start_in startNode collected then map nodeMap collected # rtn
               else rtn @ [map nodeMap collected])"
  by (simp add: array_from_def Let_def)

lemma components_loop_throws:
  "nodeId \<notin> set seen \<Longrightarrow> dfs nodeId edgeMap (seen, []) = Inl e \<Longrightarrow>
     components_loop nodeMap edgeMap startNode (nodeId # ids) (seen, rtn) = Inl e"
  by simp

lemma start_in_None: "\<not> start_in None c"
  by (simp add: start_in_def)

lemma start_in_Some: "s \<noteq> [] \<Longrightarrow> start_in (Some s) c \<longleftrightarrow> s \<in> set c"
  by (simp add: start_in_def)

text \<open>The loop that records the collected sets, started with some sets already
  recorded.\<close>

lemma discover_append:
  "components_loop (\<lambda>c. c) edgeMap None ids (seen, comps) =
     (case components_loop (\<lambda>c. c) edgeMap None ids (seen, []) of
        Inl e \<Rightarrow> Inl e
      | Inr (seen', new) \<Rightarrow> Inr (seen', comps @ new))"
proof (induction ids arbitrary: seen comps)
  case Nil
  show ?case by simp
next
  case (Cons nodeId ids)
  show ?case
  proof (cases "nodeId \<in> set seen")
    case True
    show ?thesis unfolding components_loop_seen [OF True] by (rule Cons.IH)
  next
    case False
    show ?thesis
    proof (cases "dfs nodeId edgeMap (seen, [])")
      case (Inl e)
      show ?thesis unfolding components_loop_throws [OF False Inl] by simp
    next
      case (Inr st1)
      obtain seen1 collected where st1: "st1 = (seen1, collected)" by (cases st1)
      note d = Inr [unfolded st1]
      have step: "components_loop (\<lambda>c. c) edgeMap None (nodeId # ids) (seen, cs) =
          components_loop (\<lambda>c. c) edgeMap None ids (seen1, cs @ [collected])" for cs
        using components_loop_unseen [OF False d, of "\<lambda>c. c" None ids cs]
        by (simp add: start_in_None)
      show ?thesis
        unfolding step
        by (subst Cons.IH, subst (2) Cons.IH)
           (cases "components_loop (\<lambda>c. c) edgeMap None ids (seen1, [])", auto)
    qed
  qed
qed

lemma discover_Cons_unseen:
  assumes "nodeId \<notin> set seen" and "dfs nodeId edgeMap (seen, []) = Inr (seen1, collected)"
  shows "components_loop (\<lambda>c. c) edgeMap None (nodeId # ids) (seen, []) =
     (case components_loop (\<lambda>c. c) edgeMap None ids (seen1, []) of
        Inl e \<Rightarrow> Inl e
      | Inr (seen', new) \<Rightarrow> Inr (seen', collected # new))"
proof -
  have "components_loop (\<lambda>c. c) edgeMap None (nodeId # ids) (seen, []) =
      components_loop (\<lambda>c. c) edgeMap None ids (seen1, [collected])"
    using components_loop_unseen [OF assms, of "\<lambda>c. c" None ids "[]"]
    by (simp add: start_in_None)
  then show ?thesis
    by (subst (asm) discover_append)
       (cases "components_loop (\<lambda>c. c) edgeMap None ids (seen1, [])", auto)
qed

text \<open>
  The loop of the source against the loop that records the collected sets: a set with
  the start node goes to the front, every other set to the end, and the one throws
  when the other does.
\<close>

lemma components_loop_discovered:
  "components_loop nodeMap edgeMap startNode ids (seen, rtn) =
     (case components_loop (\<lambda>c. c) edgeMap None ids (seen, []) of
        Inl e \<Rightarrow> Inl e
      | Inr (seen', comps) \<Rightarrow>
          Inr (seen',
               rev (map (map nodeMap) (filter (start_in startNode) comps))
               @ rtn
               @ map (map nodeMap) (filter (\<lambda>c. \<not> start_in startNode c) comps)))"
proof (induction ids arbitrary: seen rtn)
  case Nil
  show ?case by simp
next
  case (Cons nodeId ids)
  show ?case
  proof (cases "nodeId \<in> set seen")
    case True
    show ?thesis unfolding components_loop_seen [OF True] by (rule Cons.IH)
  next
    case False
    show ?thesis
    proof (cases "dfs nodeId edgeMap (seen, [])")
      case (Inl e)
      show ?thesis unfolding components_loop_throws [OF False Inl] by simp
    next
      case (Inr st1)
      obtain seen1 collected where st1: "st1 = (seen1, collected)" by (cases st1)
      note d = Inr [unfolded st1]
      have src: "components_loop nodeMap edgeMap startNode (nodeId # ids) (seen, rtn) =
          components_loop nodeMap edgeMap startNode ids
            (seen1, if start_in startNode collected then map nodeMap collected # rtn
                    else rtn @ [map nodeMap collected])"
        using False d by (rule components_loop_unseen)
      show ?thesis
        unfolding src
        by (subst discover_Cons_unseen [OF False d], subst Cons.IH)
           (cases "components_loop (\<lambda>c. c) edgeMap None ids (seen1, [])", auto)
    qed
  qed
qed

lemma closed_under_reach:
  "(a, b) \<in> (edge_rel edgeMap)\<^sup>* \<Longrightarrow> closed_under edgeMap S \<Longrightarrow> a \<in> S \<Longrightarrow> b \<in> S"
  by (induction rule: rtrancl_induct) (auto simp: closed_under_def edge_rel_def)

lemma closed_under_empty: "closed_under edgeMap (set [])"
  by (simp add: closed_under_def)

text \<open>
  Started outside a set of seen ids that is closed under a symmetric edge map, the
  traversal collects exactly the ids reachable from its start.
\<close>

lemma dfs_component:
  assumes sym: "sym (edge_rel edgeMap)"
    and closed: "closed_under edgeMap (set seen)"
    and unseen: "nodeId \<notin> set seen"
    and d: "dfs nodeId edgeMap (seen, []) = Inr (seen', collected)"
  shows "set collected = (edge_rel edgeMap)\<^sup>* `` {nodeId}"
    and "set seen' = set seen \<union> set collected"
    and "set collected \<inter> set seen = {}"
    and "closed_under edgeMap (set seen')"
proof -
  have mono: "set seen \<subseteq> set seen'"
    using dfs_seen_mono(1) [OF d] by simp
  have col: "set collected = set seen' - set seen"
    using dfs_collected(1) [OF d] by simp
  show "set seen' = set seen \<union> set collected" using mono col by auto
  show "set collected \<inter> set seen = {}" using col by auto
  show cl: "closed_under edgeMap (set seen')"
    unfolding closed_under_def
  proof (intro ballI allI impI)
    fix v w
    assume v: "v \<in> set seen'" and n: "neighbor edgeMap v w"
    show "w \<in> set seen'"
    proof (cases "v \<in> set seen")
      case True
      then have "w \<in> set seen" using closed n by (auto simp: closed_under_def)
      then show ?thesis using mono by blast
    next
      case False
      then show ?thesis using dfs_closes(1) [OF d _ _ n, of ] v by simp
    qed
  qed
  have self: "nodeId \<in> set seen'" using dfs_self [OF d] by simp
  show "set collected = (edge_rel edgeMap)\<^sup>* `` {nodeId}"
  proof (intro equalityI subsetI)
    fix v assume "v \<in> set collected"
    then show "v \<in> (edge_rel edgeMap)\<^sup>* `` {nodeId}"
      using dfs_reachable(1) [OF d] col by auto
  next
    fix v assume "v \<in> (edge_rel edgeMap)\<^sup>* `` {nodeId}"
    then have r: "(nodeId, v) \<in> (edge_rel edgeMap)\<^sup>*" by simp
    then have "v \<in> set seen'" using cl self by (rule closed_under_reach)
    moreover have "v \<notin> set seen"
    proof
      assume "v \<in> set seen"
      moreover have "(v, nodeId) \<in> (edge_rel edgeMap)\<^sup>*"
        using r sym_rtrancl [OF sym] by (auto dest: symD)
      ultimately have "nodeId \<in> set seen" using closed closed_under_reach by blast
      then show False using unseen by simp
    qed
    ultimately show "v \<in> set collected" using col by simp
  qed
qed

text \<open>What the loop over the endpoint ids has recorded when it returns.\<close>

lemma discover_props:
  assumes sym: "sym (edge_rel edgeMap)"
  shows "closed_under edgeMap (set seen) \<Longrightarrow>
     components_loop (\<lambda>c. c) edgeMap None ids (seen, []) = Inr (seen', comps) \<Longrightarrow>
     closed_under edgeMap (set seen')
     \<and> set seen' = set seen \<union> \<Union> (set ` set comps)
     \<and> set ids \<subseteq> set seen'
     \<and> (\<forall>c \<in> set comps.
           set c \<inter> set seen = {} \<and> (\<exists>n \<in> set ids. set c = (edge_rel edgeMap)\<^sup>* `` {n}))
     \<and> (\<forall>s. length (filter (\<lambda>c. s \<in> set c) comps) \<le> 1)"
proof (induction ids arbitrary: seen seen' comps)
  case Nil
  then show ?case by simp
next
  case (Cons nodeId ids)
  show ?case
  proof (cases "nodeId \<in> set seen")
    case True
    have "components_loop (\<lambda>c. c) edgeMap None ids (seen, []) = Inr (seen', comps)"
      using Cons.prems(2) unfolding components_loop_seen [OF True] .
    from Cons.IH [OF Cons.prems(1) this] show ?thesis using True by auto
  next
    case False
    obtain seen1 collected where d: "dfs nodeId edgeMap (seen, []) = Inr (seen1, collected)"
      using Cons.prems(2) False by (cases "dfs nodeId edgeMap (seen, [])") auto
    obtain new where rest: "components_loop (\<lambda>c. c) edgeMap None ids (seen1, []) = Inr (seen', new)"
      and comps: "comps = collected # new"
      using Cons.prems(2) unfolding discover_Cons_unseen [OF False d]
      by (auto split: sum.splits)
    note c = dfs_component [OF sym Cons.prems(1) False d]
    note IH = Cons.IH [OF c(4) rest]
    have self: "nodeId \<in> set collected" using c(1) by simp
    have one: "length (filter (\<lambda>c. s \<in> set c) (collected # new)) \<le> 1" for s
    proof (cases "s \<in> set collected")
      case True
      then have "\<forall>c \<in> set new. s \<notin> set c" using IH c(2) by auto
      then have "filter (\<lambda>c. s \<in> set c) new = []" by (simp add: filter_empty_conv)
      then show ?thesis by simp
    next
      case False
      then show ?thesis using IH by simp
    qed
    have each: "\<forall>c' \<in> set (collected # new).
        set c' \<inter> set seen = {} \<and> (\<exists>n \<in> set (nodeId # ids). set c' = (edge_rel edgeMap)\<^sup>* `` {n})"
    proof
      fix c' assume "c' \<in> set (collected # new)"
      then consider "c' = collected" | "c' \<in> set new" by auto
      then show "set c' \<inter> set seen = {} \<and>
          (\<exists>n \<in> set (nodeId # ids). set c' = (edge_rel edgeMap)\<^sup>* `` {n})"
      proof cases
        case 1
        then show ?thesis using c(1,3) by simp
      next
        case 2
        then have "set c' \<inter> set seen1 = {}" "\<exists>n \<in> set ids. set c' = (edge_rel edgeMap)\<^sup>* `` {n}"
          using IH by auto
        then show ?thesis using c(2) by auto
      qed
    qed
    have seen_eq: "set seen' = set seen \<union> \<Union> (set ` set (collected # new))"
      using IH c(2) by auto
    have ids: "set (nodeId # ids) \<subseteq> set seen'"
      using IH self c(2) by auto
    show ?thesis
      unfolding comps using IH seen_eq ids each one by blast
  qed
qed

text \<open>The loop returns when no name of \<^verbatim>\<open>Object.prototype\<close> is met.\<close>

lemma components_loop_returns:
  assumes "\<forall>a b. neighbor edgeMap a b \<longrightarrow> b \<notin> set object_prototype"
    and "set ids \<inter> set object_prototype = {}"
  shows "\<exists>r. components_loop nodeMap edgeMap startNode ids st = Inr r"
  using assms(2)
proof (induction ids arbitrary: st)
  case Nil
  show ?case by simp
next
  case (Cons nodeId ids)
  obtain seen rtn where st: "st = (seen, rtn)" by (cases st)
  have ids: "set ids \<inter> set object_prototype = {}" using Cons.prems by auto
  show ?case
  proof (cases "nodeId \<in> set seen")
    case True
    show ?thesis unfolding st components_loop_seen [OF True] using Cons.IH [OF ids] .
  next
    case False
    have "nodeId \<notin> set object_prototype" using Cons.prems by auto
    then obtain st1 where "dfs nodeId edgeMap (seen, []) = Inr st1"
      using dfs_returns(1) [OF assms(1)] by blast
    then obtain seen1 collected where d: "dfs nodeId edgeMap (seen, []) = Inr (seen1, collected)"
      by (cases st1) auto
    show ?thesis unfolding st components_loop_unseen [OF False d] using Cons.IH [OF ids] .
  qed
qed

lemma set_connectedNodeIds:
  "set (connectedNodeIds links) = source ` set links \<union> target ` set links"
proof -
  have "set (fold (\<lambda>link s. set_add (target link) (set_add (source link) s)) links s0) =
      set s0 \<union> source ` set links \<union> target ` set links" for s0
    by (induction links arbitrary: s0) (auto simp: set_set_add)
  then show ?thesis by (simp add: connectedNodeIds_def)
qed

lemma edge_rel_undirected:
  "convertToEdgeMap links False = Inr edgeMap \<Longrightarrow> edge_rel edgeMap = undirected_rel links"
  by (auto simp: edge_rel_def undirected_rel_def neighbor_convertToEdgeMap)

lemma sym_undirected_rel: "sym (undirected_rel links)"
  by (auto simp: sym_def undirected_rel_def)

lemma key_ids_undirected: "key_ids links False = set (connectedNodeIds links)"
  by (simp add: key_ids_def set_connectedNodeIds)

text \<open>
  \<open>getDisconnectedComponents\<close> throws exactly when an endpoint of a link is a name of
  \<^verbatim>\<open>Object.prototype\<close>; the exception comes from \<open>convertToEdgeMap\<close>.
\<close>

lemma getDisconnectedComponents_throws:
  "getDisconnectedComponents nodes links startNode = Inl e \<longleftrightarrow>
     (source ` set links \<union> target ` set links) \<inter> set object_prototype \<noteq> {}"
proof (cases "convertToEdgeMap links False")
  case (Inl e')
  then have "key_ids links False \<inter> set object_prototype \<noteq> {}"
    by (simp add: convertToEdgeMap_throws)
  moreover have "e' = e" by (cases e, cases e') simp
  ultimately show ?thesis
    using Inl by (simp add: getDisconnectedComponents_def key_ids_undirected set_connectedNodeIds)
next
  case (Inr edgeMap)
  have free: "key_ids links False \<inter> set object_prototype = {}"
    using Inr convertToEdgeMap_returns by blast
  have nb: "\<forall>a b. neighbor edgeMap a b \<longrightarrow> b \<notin> set object_prototype"
    using free unfolding neighbor_convertToEdgeMap [OF Inr] key_ids_def by auto
  have ids: "set (connectedNodeIds links) \<inter> set object_prototype = {}"
    using free by (simp add: key_ids_undirected)
  obtain r where "components_loop (idToNodes_get (idToNodes nodes)) edgeMap startNode
      (connectedNodeIds links) ([], []) = Inr r"
    using components_loop_returns [OF nb ids] by blast
  then show ?thesis
    using Inr free
    by (cases r)
       (simp add: getDisconnectedComponents_def array_from_def key_ids_undirected
          set_connectedNodeIds)
qed

lemma getDisconnectedComponents_returns:
  "(\<exists>rtn. getDisconnectedComponents nodes links startNode = Inr rtn) \<longleftrightarrow>
     (source ` set links \<union> target ` set links) \<inter> set object_prototype = {}"
  using getDisconnectedComponents_throws [of nodes links startNode TypeError]
  by (cases "getDisconnectedComponents nodes links startNode") (auto, metis error.exhaust)

text \<open>
  The result in terms of the collected sets: the sets with the start node first, then
  the others, each mapped through \<^verbatim>\<open>idToNodes\<close>.
\<close>

lemma getDisconnectedComponents_discovered:
  assumes "getDisconnectedComponents nodes links startNode = Inr rtn"
  shows "rtn =
     rev (map (map (idToNodes_get (idToNodes nodes)))
            (filter (start_in startNode) (discovered links)))
     @ map (map (idToNodes_get (idToNodes nodes)))
         (filter (\<lambda>c. \<not> start_in startNode c) (discovered links))"
proof -
  obtain edgeMap where em: "convertToEdgeMap links False = Inr edgeMap"
    using assms by (cases "convertToEdgeMap links False") (auto simp: getDisconnectedComponents_def)
  show ?thesis
    using assms
    unfolding getDisconnectedComponents_def discovered_def Let_def em array_from_def
    by (subst (asm) components_loop_discovered)
       (auto split: sum.splits)
qed

text \<open>The collected sets are the connectivity classes of the endpoints, each once.\<close>

lemma discovered_props:
  assumes "getDisconnectedComponents nodes links startNode = Inr rtn"
  shows "\<Union> (set ` set (discovered links)) = set (connectedNodeIds links)"
    and "c \<in> set (discovered links) \<Longrightarrow>
           \<exists>n \<in> set (connectedNodeIds links). set c = (undirected_rel links)\<^sup>* `` {n}"
    and "length (filter (\<lambda>c. s \<in> set c) (discovered links)) \<le> 1"
proof -
  obtain edgeMap where em: "convertToEdgeMap links False = Inr edgeMap"
    using assms by (cases "convertToEdgeMap links False") (auto simp: getDisconnectedComponents_def)
  obtain seen' where loop: "components_loop (\<lambda>c. c) edgeMap None (connectedNodeIds links) ([], [])
      = Inr (seen', discovered links)"
    using assms
    unfolding getDisconnectedComponents_def discovered_def Let_def em array_from_def
    by (subst (asm) components_loop_discovered) (auto split: sum.splits)
  have sym: "sym (edge_rel edgeMap)" by (simp add: edge_rel_undirected [OF em] sym_undirected_rel)
  note P = discover_props [OF sym closed_under_empty loop, unfolded edge_rel_undirected [OF em]]
  show "length (filter (\<lambda>c. s \<in> set c) (discovered links)) \<le> 1" using P by blast
  show "\<exists>n \<in> set (connectedNodeIds links). set c = (undirected_rel links)\<^sup>* `` {n}"
    if "c \<in> set (discovered links)" using P that by blast
  have sub: "set (connectedNodeIds links) \<subseteq> \<Union> (set ` set (discovered links))"
    using P by auto
  have "set c \<subseteq> set (connectedNodeIds links)" if c: "c \<in> set (discovered links)" for c
  proof -
    obtain n where n: "n \<in> set (connectedNodeIds links)" "set c = (undirected_rel links)\<^sup>* `` {n}"
      using P c by blast
    have "b \<in> set (connectedNodeIds links)"
      if "(a, b) \<in> (undirected_rel links)\<^sup>*" "a \<in> set (connectedNodeIds links)" for a b
      using that
      by (induction rule: rtrancl_induct)
         (auto simp: undirected_rel_def set_connectedNodeIds)
    then show ?thesis using n by auto
  qed
  then show "\<Union> (set ` set (discovered links)) = set (connectedNodeIds links)"
    using sub by auto
qed

text \<open>
  Where the function returns and the start node is an endpoint other than the empty
  string, its connectivity class comes first, and the other classes follow in the
  order of their discovery.
\<close>

lemma getDisconnectedComponents_start_first:
  assumes "getDisconnectedComponents nodes links (Some startNode) = Inr rtn"
    and "startNode \<noteq> []" and "startNode \<in> set (connectedNodeIds links)"
  shows "\<exists>pre c post.
           discovered links = pre @ c # post
         \<and> set c = (undirected_rel links)\<^sup>* `` {startNode}
         \<and> (\<forall>c' \<in> set (pre @ post). startNode \<notin> set c')
         \<and> rtn = map (map (idToNodes_get (idToNodes nodes))) (c # pre @ post)"
proof -
  let ?P = "\<lambda>c. startNode \<in> set c"
  note props = discovered_props [OF assms(1)]
  have "startNode \<in> \<Union> (set ` set (discovered links))"
    using assms(3) props(1) by simp
  then have "filter ?P (discovered links) \<noteq> []" by (auto simp: filter_empty_conv)
  moreover have "length (filter ?P (discovered links)) \<le> 1" by (rule props(3))
  ultimately obtain c where f: "filter ?P (discovered links) = [c]"
    by (cases "filter ?P (discovered links)") auto
  then obtain pre post where split: "discovered links = pre @ c # post"
    and pre: "\<forall>u \<in> set pre. \<not> ?P u" and c: "?P c" and post: "[] = filter ?P post"
    unfolding filter_eq_Cons_iff by blast
  have post': "\<forall>u \<in> set post. \<not> ?P u" using post by (metis filter_empty_conv)
  have rest: "filter (\<lambda>c. \<not> ?P c) (discovered links) = pre @ post"
    using pre post' c unfolding split by (simp add: filter_id_conv)
  obtain n where n: "set c = (undirected_rel links)\<^sup>* `` {n}"
    using props(2) [of c] split by auto
  have "(n, startNode) \<in> (undirected_rel links)\<^sup>*" using c n by auto
  moreover have "(startNode, n) \<in> (undirected_rel links)\<^sup>*"
    using calculation sym_rtrancl [OF sym_undirected_rel] by (auto dest: symD)
  ultimately have cls: "set c = (undirected_rel links)\<^sup>* `` {startNode}"
    unfolding n by (auto intro: rtrancl_trans)
  have P: "start_in (Some startNode) = ?P"
    by (simp add: fun_eq_iff start_in_Some [OF assms(2)])
  have some: "rtn = map (map (idToNodes_get (idToNodes nodes))) (c # pre @ post)"
    unfolding getDisconnectedComponents_discovered [OF assms(1)] P by (simp add: f rest)
  show ?thesis
    using split cls pre post' some
    by (intro exI [of _ pre] exI [of _ c] exI [of _ post]) auto
qed

text \<open>
  With the empty string as start node, as without a start node, every class stays at
  the place of its discovery.
\<close>

lemma start_in_empty: "\<not> start_in (Some []) c"
  by (simp add: start_in_def)

lemma components_loop_empty_start:
  "components_loop nodeMap edgeMap (Some []) ids st = components_loop nodeMap edgeMap None ids st"
  by (induction nodeMap edgeMap "Some ([] :: string)" ids st rule: components_loop.induct)
     (auto simp: start_in_empty start_in_None Let_def split: sum.splits)

lemma getDisconnectedComponents_empty_start:
  "getDisconnectedComponents nodes links (Some []) = getDisconnectedComponents nodes links None"
  unfolding getDisconnectedComponents_def Let_def components_loop_empty_start ..

text \<open>The lookup object after the loop over the nodes.\<close>

lemma fold_idToNodes_set_other:
  "a \<notin> node_id ` set nodes \<Longrightarrow> fst (fold idToNodes_set nodes (own, proto)) a = own a"
  by (induction nodes arbitrary: own proto) (auto simp: idToNodes_set_def)

lemma fold_idToNodes_set_proto:
  "''__proto__'' \<notin> node_id ` set nodes \<Longrightarrow> snd (fold idToNodes_set nodes (own, proto)) = proto"
  by (induction nodes arbitrary: own proto) (auto simp: idToNodes_set_def)

lemma fold_idToNodes_set_present:
  "a \<in> node_id ` set nodes \<Longrightarrow> a \<noteq> ''__proto__'' \<Longrightarrow>
     \<exists>node \<in> set nodes. node_id node = a
        \<and> fst (fold idToNodes_set nodes (own, proto)) a = Some node"
proof (induction nodes arbitrary: own proto)
  case Nil
  then show ?case by simp
next
  case (Cons n nodes)
  obtain own1 proto1 where step: "idToNodes_set n (own, proto) = (own1, proto1)"
    by (cases "idToNodes_set n (own, proto)")
  show ?case
  proof (cases "a \<in> node_id ` set nodes")
    case True
    then show ?thesis using Cons.IH [OF True Cons.prems(2), of own1 proto1] step by auto
  next
    case False
    then have a: "node_id n = a" using Cons.prems by auto
    have "own1 a = Some n"
      using step a Cons.prems(2) by (auto simp: idToNodes_set_def)
    then have "fst (fold idToNodes_set (n # nodes) (own, proto)) a = Some n"
      using fold_idToNodes_set_other [OF False, of own1 proto1] step by simp
    then show ?thesis using a by auto
  qed
qed

lemma idToNodes_get_present:
  assumes "a \<in> node_id ` set nodes" and "a \<noteq> ''__proto__''"
  shows "\<exists>node \<in> set nodes. node_id node = a \<and> idToNodes_get (idToNodes nodes) a = Node node"
proof -
  obtain node where "node \<in> set nodes" "node_id node = a"
    "fst (fold idToNodes_set nodes (Map.empty, None)) a = Some node"
    using fold_idToNodes_set_present [OF assms] by blast
  then show ?thesis
    by (cases "fold idToNodes_set nodes (Map.empty, None)")
       (auto simp: idToNodes_get_def idToNodes_def)
qed

lemma idToNodes_get_absent:
  assumes "a \<notin> node_id ` set nodes" and "''__proto__'' \<notin> node_id ` set nodes"
    and "a \<notin> set object_prototype"
  shows "idToNodes_get (idToNodes nodes) a = Undefined"
proof -
  have "fst (fold idToNodes_set nodes (Map.empty, None)) a = None"
    using fold_idToNodes_set_other [OF assms(1), of Map.empty None] by simp
  moreover have "snd (fold idToNodes_set nodes (Map.empty, None)) = None"
    using assms(2) by (rule fold_idToNodes_set_proto)
  moreover have "a \<noteq> ''__proto__''" using assms(3) by (auto simp: object_prototype_def)
  ultimately show ?thesis
    using assms(3)
    by (cases "fold idToNodes_set nodes (Map.empty, None)")
       (auto simp: idToNodes_get_def idToNodes_def inherited_value_def)
qed

text \<open>
  Every entry of a component is the lookup of an endpoint id: a node of the list when
  the id has one.
\<close>

lemma getDisconnectedComponents_entries:
  assumes "getDisconnectedComponents nodes links startNode = Inr rtn"
    and "component \<in> set rtn" and "e \<in> set component"
  shows "\<exists>a \<in> set (connectedNodeIds links). e = idToNodes_get (idToNodes nodes) a
           \<and> (a \<in> node_id ` set nodes \<longrightarrow> (\<exists>node \<in> set nodes. node_id node = a \<and> e = Node node))"
proof -
  obtain c where c: "c \<in> set (discovered links)"
      "component = map (idToNodes_get (idToNodes nodes)) c"
    using assms(2) unfolding getDisconnectedComponents_discovered [OF assms(1)] by auto
  then obtain a where a: "a \<in> set c" "e = idToNodes_get (idToNodes nodes) a"
    using assms(3) by auto
  have mem: "a \<in> set (connectedNodeIds links)"
    using a(1) c(1) discovered_props(1) [OF assms(1)] by blast
  have "(source ` set links \<union> target ` set links) \<inter> set object_prototype = {}"
    using assms(1) getDisconnectedComponents_returns by blast
  then have "a \<noteq> ''__proto__''"
    using mem by (auto simp: set_connectedNodeIds object_prototype_def)
  then show ?thesis
    using a(2) mem idToNodes_get_present [of a nodes]
    by (intro bexI [of _ a]) auto
qed

text \<open>
  A single link from \<open>a\<close> to \<open>a\<close>: one component with the lookup of \<open>a\<close>, unless \<open>a\<close> is
  a name of \<^verbatim>\<open>Object.prototype\<close>, where \<open>convertToEdgeMap\<close> throws.
\<close>

lemma self_loop_component:
  "getDisconnectedComponents nodes [\<lparr>source = a, target = a\<rparr>] startNode =
     (if a \<in> set object_prototype then Inl TypeError
      else Inr [[idToNodes_get (idToNodes nodes) a]])"
  by (simp add: getDisconnectedComponents_def connectedNodeIds_def convertToEdgeMap_def
        add_neighbor_def ensure_key_def js_get_def set_add_def array_from_def
        dfs.simps Let_def)

lemma self_loop_node:
  assumes "a \<in> node_id ` set nodes" and "a \<notin> set object_prototype"
  shows "\<exists>node \<in> set nodes. node_id node = a
     \<and> getDisconnectedComponents nodes [\<lparr>source = a, target = a\<rparr>] startNode = Inr [[Node node]]"
proof -
  have "a \<noteq> ''__proto__''" using assms(2) by (auto simp: object_prototype_def)
  then show ?thesis
    using idToNodes_get_present [OF assms(1)] assms(2) by (auto simp: self_loop_component)
qed

lemmas components_eval = getDisconnectedComponents_def connectedNodeIds_def convertToEdgeMap_def
  add_neighbor_def ensure_key_def js_get_def object_prototype_def set_add_def array_from_def
  idToNodes_def idToNodes_set_def idToNodes_get_def inherited_value_def node_field_def
  start_in_def dfs.simps Let_def

text \<open>
  The example of the specification: nodes \<^verbatim>\<open>A\<close> to \<^verbatim>\<open>D\<close>, links \<^verbatim>\<open>A-B\<close> and
  \<^verbatim>\<open>C-D\<close>, start node \<^verbatim>\<open>D\<close>.
\<close>

lemma getDisconnectedComponents_example:
  "getDisconnectedComponents
     [\<lparr>node_id = ''A'', label = ''a'', x = None :: 'n option, y = None\<rparr>,
      \<lparr>node_id = ''B'', label = ''b'', x = None, y = None\<rparr>,
      \<lparr>node_id = ''C'', label = ''c'', x = None, y = None\<rparr>,
      \<lparr>node_id = ''D'', label = ''d'', x = None, y = None\<rparr>]
     [\<lparr>source = ''A'', target = ''B''\<rparr>, \<lparr>source = ''C'', target = ''D''\<rparr>]
     (Some ''D'')
   = Inr [[Node \<lparr>node_id = ''C'', label = ''c'', x = None, y = None\<rparr>,
           Node \<lparr>node_id = ''D'', label = ''d'', x = None, y = None\<rparr>],
          [Node \<lparr>node_id = ''A'', label = ''a'', x = None, y = None\<rparr>,
           Node \<lparr>node_id = ''B'', label = ''b'', x = None, y = None\<rparr>]]"
  by (simp add: components_eval)

text \<open>
  C4: the code at the start node \<^verbatim>\<open>""\<close>, an endpoint of the second link: the test
  \<^verbatim>\<open>startNode && collected.has(startNode)\<close> fails on the empty string, and the component
  of the start node stays second, behind the component of \<^verbatim>\<open>A\<close> and \<^verbatim>\<open>B\<close>.
\<close>
theorem getDisconnectedComponents_empty_start_second:
  "[] \<in> set (connectedNodeIds
        [\<lparr>source = ''A'', target = ''B''\<rparr>, \<lparr>source = [], target = ''C''\<rparr>])
   \<and> getDisconnectedComponents
        [\<lparr>node_id = ''A'', label = ''a'', x = None :: 'n option, y = None\<rparr>,
         \<lparr>node_id = ''B'', label = ''b'', x = None, y = None\<rparr>,
         \<lparr>node_id = [], label = ''e'', x = None, y = None\<rparr>,
         \<lparr>node_id = ''C'', label = ''c'', x = None, y = None\<rparr>]
        [\<lparr>source = ''A'', target = ''B''\<rparr>, \<lparr>source = [], target = ''C''\<rparr>]
        (Some [])
     = Inr [[Node \<lparr>node_id = ''A'', label = ''a'', x = None, y = None\<rparr>,
             Node \<lparr>node_id = ''B'', label = ''b'', x = None, y = None\<rparr>],
            [Node \<lparr>node_id = [], label = ''e'', x = None, y = None\<rparr>,
             Node \<lparr>node_id = ''C'', label = ''c'', x = None, y = None\<rparr>]]"
  by (simp add: components_eval)

text \<open>
  C6: the code at a single self-loop on the node \<^verbatim>\<open>constructor\<close>: \<open>convertToEdgeMap\<close>
  finds the inherited \<^verbatim>\<open>Object.prototype.constructor\<close> under that key, creates no set,
  and the call of \<^verbatim>\<open>add\<close> throws; no component is returned.
\<close>
theorem getDisconnectedComponents_self_loop_throws:
  "getDisconnectedComponents
     [\<lparr>node_id = ''constructor'', label = ''c'', x = None :: 'n option, y = None\<rparr>]
     [\<lparr>source = ''constructor'', target = ''constructor''\<rparr>] None
   = Inl TypeError"
  by (simp add: components_eval)

text \<open>
  C2: the code at a link whose target has no node object: the component holds an
  \<^verbatim>\<open>undefined\<close> entry for the dangling id \<^verbatim>\<open>B\<close>, next to the node \<^verbatim>\<open>A\<close>.
\<close>
theorem getDisconnectedComponents_dangling_entry:
  "getDisconnectedComponents
     [\<lparr>node_id = ''A'', label = ''a'', x = None :: 'n option, y = None\<rparr>]
     [\<lparr>source = ''A'', target = ''B''\<rparr>] None
   = Inr [[Node \<lparr>node_id = ''A'', label = ''a'', x = None, y = None\<rparr>, Undefined]]"
  by (simp add: components_eval)

text \<open>
  A node with the id \<^verbatim>\<open>__proto__\<close> becomes the prototype of the lookup object: the
  dangling ids \<^verbatim>\<open>label\<close> and \<^verbatim>\<open>x\<close> then find its fields.
\<close>

lemma getDisconnectedComponents_proto_fields:
  "getDisconnectedComponents
     [\<lparr>node_id = ''__proto__'', label = ''a'', x = Some (3 :: int), y = None\<rparr>]
     [\<lparr>source = ''label'', target = ''x''\<rparr>, \<lparr>source = ''y'', target = ''B''\<rparr>] None
   = Inr [[Str ''a'', Num 3], [Undefined, Undefined]]"
  by (simp add: components_eval)

end
